theory Spec2Isabelle
  imports Main
begin

section \<open>The CSV splitter \<^verbatim>\<open>split_csv.py\<close>\<close>

text \<open>
  The script reads its input in chunks of \<^verbatim>\<open>read_size\<close> bytes, runs a small stack
  machine over every byte to find the line feeds that end a CSV record, and starts a new
  output file after every \<^verbatim>\<open>num_per_split\<close> records. Bytes are modelled as \<^typ>\<open>char\<close>
  (an 8-bit value), byte strings and paths as \<^typ>\<open>string\<close>, Python's integers as
  \<^typ>\<open>int\<close>, counters that only count up from zero as \<^typ>\<open>nat\<close>.
\<close>

subsection \<open>Errors\<close>

text \<open>The Python exceptions that the modelled statements can raise.\<close>

datatype error =
  IndexError | ZeroDivisionError | FileExistsError | FileNotFoundError | AttributeError

subsection \<open>The scanner's state stack (lines 100 to 123)\<close>

text \<open>
  \<^verbatim>\<open>state\<close> is a Python list of the strings "start", "inquote", "endquote" and
  "literal_quote", used as a stack whose top is the last element: \<^verbatim>\<open>state[-1]\<close> reads
  the top, \<^verbatim>\<open>state.pop()\<close> removes it, \<^verbatim>\<open>state.append(x)\<close> pushes. Both \<^verbatim>\<open>state[-1]\<close>
  and \<^verbatim>\<open>state.pop()\<close> raise IndexError on an empty list.
\<close>

datatype scan_state = start | inquote | endquote | literal_quote

definition dquote :: char where
  "dquote = CHR 0x22"

definition LF :: char where
  "LF = CHR 0x0A"

definition top :: "scan_state list \<Rightarrow> error + scan_state" where
  "top state = (if state = [] then Inl IndexError else Inr (last state))"

definition pop :: "scan_state list \<Rightarrow> error + scan_state list" where
  "pop state = (if state = [] then Inl IndexError else Inr (butlast state))"

text \<open>Lines 104 to 113: the first \<^verbatim>\<open>if\<close>/\<^verbatim>\<open>elif\<close>, which resolves a pending "endquote".\<close>

definition resolve_endquote :: "scan_state list \<Rightarrow> char \<Rightarrow> error + scan_state list" where
  "resolve_endquote state c =
     (case top state of
        Inl e \<Rightarrow> Inl e
      | Inr t \<Rightarrow>
          if t = endquote \<and> c = dquote then
            (case pop state of
               Inl e \<Rightarrow> Inl e
             | Inr state1 \<Rightarrow> Inr (state1 @ [literal_quote]))
          else if t = endquote then
            (case pop state of
               Inl e \<Rightarrow> Inl e
             | Inr state1 \<Rightarrow> pop state1)
          else Inr state)"

text \<open>
  Lines 114 to 123: the second \<^verbatim>\<open>if\<close>/\<^verbatim>\<open>elif\<close> chain. The boolean tells whether the
  branch of line 123 (\<^verbatim>\<open>elif char==10\<close>, "at end of a record") is the one taken.
\<close>

definition classify :: "scan_state list \<Rightarrow> char \<Rightarrow> error + (scan_state list \<times> bool)" where
  "classify state c =
     (case top state of
        Inl e \<Rightarrow> Inl e
      | Inr t \<Rightarrow>
          if t = literal_quote then
            (case pop state of
               Inl e \<Rightarrow> Inl e
             | Inr state1 \<Rightarrow> Inr (state1, False))
          else if t = inquote \<and> c = dquote then Inr (state @ [endquote], False)
          else if t = inquote then Inr (state, False)
          else if c = dquote then Inr (state @ [inquote], False)
          else if c = LF then Inr (state, True)
          else Inr (state, False))"

definition scan_byte :: "scan_state list \<Rightarrow> char \<Rightarrow> error + (scan_state list \<times> bool)" where
  "scan_byte state c =
     (case resolve_endquote state c of
        Inl e \<Rightarrow> Inl e
      | Inr state1 \<Rightarrow> classify state1 c)"

text \<open>
  The scanner run over a byte string: the stack it ends with and the number of bytes at
  which it took the end-of-record branch.
\<close>

fun scan_bytes :: "scan_state list \<Rightarrow> string \<Rightarrow> error + (scan_state list \<times> nat)" where
  "scan_bytes state [] = Inr (state, 0)"
| "scan_bytes state (c # cs) =
     (case scan_byte state c of
        Inl e \<Rightarrow> Inl e
      | Inr (state1, is_end) \<Rightarrow>
          (case scan_bytes state1 cs of
             Inl e \<Rightarrow> Inl e
           | Inr (state2, k) \<Rightarrow> Inr (state2, (if is_end then 1 else 0) + k)))"

subsection \<open>Formatting integers (\<^verbatim>\<open>str.format\<close>)\<close>

text \<open>
  \<^verbatim>\<open>"{}".format(n)\<close> writes an integer in decimal, with a leading minus sign when it is
  negative; \<^verbatim>\<open>"{:0{}}".format(n, width)\<close> pads a non-negative integer with zeros on the
  left up to \<^verbatim>\<open>width\<close> characters.
\<close>

definition digit_char :: "nat \<Rightarrow> char" where
  "digit_char d = ''0123456789'' ! d"

fun str_nat :: "nat \<Rightarrow> string" where
  "str_nat n = (if n < 10 then [digit_char n] else str_nat (n div 10) @ [digit_char (n mod 10)])"

declare str_nat.simps [simp del]

definition str_int :: "int \<Rightarrow> string" where
  "str_int i = (if i < 0 then ''-'' @ str_nat (nat (- i)) else str_nat (nat i))"

definition zero_pad :: "nat \<Rightarrow> string \<Rightarrow> string" where
  "zero_pad width s = replicate (width - length s) (CHR ''0'') @ s"

subsection \<open>The platform: \<^verbatim>\<open>os.path\<close> and the directories\<close>

text \<open>
  \<^verbatim>\<open>os.path.split\<close>, \<^verbatim>\<open>os.path.splitext\<close> and \<^verbatim>\<open>os.path.join\<close> belong to Python's
  library, and differ between platforms. They are a parameter of the model, and so is
  \<^verbatim>\<open>creatable\<close>, which tells of a path whether a file can be created there: whether
  its directory exists and can be written to. The script creates no directory, so this
  does not change during a run.
\<close>

record os_env =
  path_split :: "string \<Rightarrow> string \<times> string"
  path_splitext :: "string \<Rightarrow> string \<times> string"
  path_join :: "string \<Rightarrow> string \<Rightarrow> string"
  creatable :: "string \<Rightarrow> bool"

text \<open>
  The POSIX flavour of \<^verbatim>\<open>os.path\<close>, from the library's documentation: \<^verbatim>\<open>split\<close> cuts after the last
  slash and strips the slashes that end the head unless it is the root; \<^verbatim>\<open>splitext\<close>
  cuts before the last period of the last component, unless only periods precede it
  there; \<^verbatim>\<open>join\<close> puts one slash between its arguments, and restarts from an absolute
  second argument.
\<close>

definition posix_tail :: "string \<Rightarrow> string" where
  "posix_tail p = rev (takeWhile (\<lambda>c. c \<noteq> CHR ''/'') (rev p))"

definition posix_head :: "string \<Rightarrow> string" where
  "posix_head p = rev (dropWhile (\<lambda>c. c \<noteq> CHR ''/'') (rev p))"

definition posix_split :: "string \<Rightarrow> string \<times> string" where
  "posix_split p =
     (let head = posix_head p; tail = posix_tail p
      in if head \<noteq> [] \<and> (\<exists>c \<in> set head. c \<noteq> CHR ''/'')
         then (rev (dropWhile (\<lambda>c. c = CHR ''/'') (rev head)), tail)
         else (head, tail))"

definition posix_splitext :: "string \<Rightarrow> string \<times> string" where
  "posix_splitext p =
     (let tail = posix_tail p;
          ext = rev (takeWhile (\<lambda>c. c \<noteq> CHR ''.'') (rev tail));
          stem = rev (drop 1 (dropWhile (\<lambda>c. c \<noteq> CHR ''.'') (rev tail)))
      in if CHR ''.'' \<in> set tail \<and> (\<exists>c \<in> set stem. c \<noteq> CHR ''.'')
         then (posix_head p @ stem, CHR ''.'' # ext)
         else (p, []))"

definition posix_join :: "string \<Rightarrow> string \<Rightarrow> string" where
  "posix_join a b =
     (if b \<noteq> [] \<and> hd b = CHR ''/'' then b
      else if a = [] \<or> last a = CHR ''/'' then a @ b
      else a @ ''/'' @ b)"

text \<open>A POSIX platform on which every directory named by a path exists.\<close>

definition posixpath :: os_env where
  "posixpath = \<lparr>path_split = posix_split, path_splitext = posix_splitext,
                 path_join = posix_join, creatable = (\<lambda>path. True)\<rparr>"

subsection \<open>The file system\<close>

text \<open>
  A file system is a finite table from paths to file contents. \<^verbatim>\<open>open(path, 'xb')\<close>
  raises FileExistsError when the path is taken, raises FileNotFoundError when no file
  can be created at the path (its directory is missing; the exception also stands for the
  other failures of the operating system there), and creates an empty file otherwise.
  A handle is the path it was opened on; the script never deletes or renames a file, so
  the path keeps naming the handle's file. \<^verbatim>\<open>fh.write(data)\<close> appends to the file,
  since every handle is written sequentially from its creation. Reads and writes through
  an open handle are taken to succeed.
\<close>

type_synonym filesystem = "(string \<times> string) list"

definition file_exists :: "filesystem \<Rightarrow> string \<Rightarrow> bool" where
  "file_exists fs path = (map_of fs path \<noteq> None)"

definition contents :: "filesystem \<Rightarrow> string \<Rightarrow> string" where
  "contents fs path = (case map_of fs path of None \<Rightarrow> [] | Some data \<Rightarrow> data)"

definition open_x :: "os_env \<Rightarrow> filesystem \<Rightarrow> string \<Rightarrow> error + filesystem" where
  "open_x os fs path =
     (if file_exists fs path then Inl FileExistsError
      else if \<not> creatable os path then Inl FileNotFoundError
      else Inr ((path, []) # fs))"

definition fh_write :: "filesystem \<Rightarrow> string \<Rightarrow> string \<Rightarrow> filesystem" where
  "fh_write fs fh data = map (\<lambda>(p, old). if p = fh then (p, old @ data) else (p, old)) fs"

subsection \<open>\<^verbatim>\<open>next_outfile\<close> (lines 47 to 71)\<close>

text \<open>
  An optional command-line argument is \<^verbatim>\<open>None\<close> when it is not given; \<^verbatim>\<open>if output_dir:\<close>
  and \<^verbatim>\<open>if args.generate_index:\<close> are false for \<^verbatim>\<open>None\<close> and for the empty string.
\<close>

definition truthy :: "string option \<Rightarrow> bool" where
  "truthy arg = (arg \<noteq> None \<and> arg \<noteq> Some [])"

text \<open>Lines 49 to 58.\<close>

definition initial_output_path :: "os_env \<Rightarrow> string \<Rightarrow> string option \<Rightarrow> nat \<Rightarrow> nat \<Rightarrow> string" where
  "initial_output_path os input_path output_dir counter width =
     (if truthy output_dir then
        (let (input_dir, input_filename) = path_split os input_path;
             (input_fnbase, input_fnext) = path_splitext os input_filename
         in path_join os (the output_dir)
              (input_fnbase @ ''_'' @ zero_pad width (str_nat counter) @ input_fnext))
      else
        (let (input_pathbase, input_ext) = path_splitext os input_path
         in input_pathbase @ ''_'' @ zero_pad width (str_nat counter) @ input_ext))"

text \<open>Lines 67 to 70: the path tried after \<^verbatim>\<open>retry_count\<close> collisions.\<close>

definition retry_path :: "os_env \<Rightarrow> string \<Rightarrow> nat \<Rightarrow> string" where
  "retry_path os initial_path retry_count =
     (let (output_base, output_ext) = path_splitext os initial_path
      in output_base @ ''_'' @ str_nat retry_count @ output_ext)"

lemma length_str_nat: "0 < length (str_nat n)"
  by (subst str_nat.simps) simp

lemma digit_char_inj: "a < 10 \<Longrightarrow> b < 10 \<Longrightarrow> digit_char a = digit_char b \<Longrightarrow> a = b"
proof -
  assume a: "a < 10" and b: "b < 10" and eq: "digit_char a = digit_char b"
  have d: "distinct ''0123456789''" by simp
  have "a < length ''0123456789''" "b < length ''0123456789''" using a b by simp_all
  with d eq show "a = b" unfolding digit_char_def by (simp only: nth_eq_iff_index_eq)
qed

lemma str_nat_inj: "str_nat m = str_nat n \<Longrightarrow> m = n"
proof (induction m arbitrary: n rule: str_nat.induct)
  case (1 m)
  show ?case
  proof (cases "m < 10")
    case True
    then have m: "str_nat m = [digit_char m]" by (subst str_nat.simps) simp
    show ?thesis
    proof (cases "n < 10")
      case True
      then have "str_nat n = [digit_char n]" by (subst str_nat.simps) simp
      with m "1.prems" have "digit_char m = digit_char n" by simp
      with \<open>m < 10\<close> \<open>n < 10\<close> show ?thesis by (rule digit_char_inj)
    next
      case False
      then have "str_nat n = str_nat (n div 10) @ [digit_char (n mod 10)]"
        by (subst str_nat.simps) simp
      with m "1.prems" have "length (str_nat (n div 10)) = 0" by simp
      with length_str_nat [of "n div 10"] show ?thesis by simp
    qed
  next
    case False
    then have m: "str_nat m = str_nat (m div 10) @ [digit_char (m mod 10)]"
      by (subst str_nat.simps) simp
    show ?thesis
    proof (cases "n < 10")
      case True
      then have "str_nat n = [digit_char n]" by (subst str_nat.simps) simp
      with m "1.prems" have "length (str_nat (m div 10)) = 0" by simp
      with length_str_nat [of "m div 10"] show ?thesis by simp
    next
      case n: False
      then have "str_nat n = str_nat (n div 10) @ [digit_char (n mod 10)]"
        by (subst str_nat.simps) simp
      with m "1.prems" have eq: "str_nat (m div 10) = str_nat (n div 10)"
        and dg: "digit_char (m mod 10) = digit_char (n mod 10)" by simp_all
      from "1.IH" [OF False eq] have q: "m div 10 = n div 10" .
      have "m mod 10 = n mod 10" by (rule digit_char_inj [OF _ _ dg]) simp_all
      with q show ?thesis by (metis div_mult_mod_eq)
    qed
  qed
qed

lemma retry_path_inj: "retry_path os init j = retry_path os init k \<Longrightarrow> j = k"
  by (auto simp: retry_path_def split: prod.splits dest: str_nat_inj)

lemma finite_retries: "finite {k. r < k \<and> file_exists fs (retry_path os init k)}"
proof -
  have "inj (retry_path os init)" by (rule injI) (rule retry_path_inj)
  moreover have "finite (fst ` set fs)" by simp
  ultimately have "finite (retry_path os init -` (fst ` set fs))" by (rule finite_vimageI [rotated])
  moreover have "{k. r < k \<and> file_exists fs (retry_path os init k)} \<subseteq> retry_path os init -` (fst ` set fs)"
    by (auto simp: file_exists_def map_of_eq_None_iff)
  ultimately show ?thesis by (rule rev_finite_subset)
qed

text \<open>
  Lines 59 to 71: the loop \<^verbatim>\<open>while not outfh\<close>. Only FileExistsError is caught (line 65);
  any other exception of \<^verbatim>\<open>open\<close> leaves \<^verbatim>\<open>next_outfile\<close>. The loop ends because the
  paths it tries differ from each other and the file system holds finitely many files.
\<close>

function next_outfile_loop ::
  "os_env \<Rightarrow> filesystem \<Rightarrow> string \<Rightarrow> nat \<Rightarrow> string \<Rightarrow> error + (string \<times> filesystem)" where
  "next_outfile_loop os fs initial_path retry_count output_path =
     (case open_x os fs output_path of
        Inr fs' \<Rightarrow> Inr (output_path, fs')
      | Inl e \<Rightarrow>
          if e = FileExistsError then
            next_outfile_loop os fs initial_path (retry_count + 1)
              (retry_path os initial_path (retry_count + 1))
          else Inl e)"
  by pat_completeness auto
termination
proof (relation "measure (\<lambda>(os, fs, init, r, p).
    2 * card {k. r < k \<and> file_exists fs (retry_path os init k)} + (if file_exists fs p then 1 else 0))")
  show "wf (measure (\<lambda>(os, fs, init, r, p).
    2 * card {k. r < k \<and> file_exists fs (retry_path os init k)} + (if file_exists fs p then 1 else 0)))"
    by simp
next
  fix os :: os_env and fs :: filesystem and init :: string and r :: nat and p :: string and e
  assume "open_x os fs p = Inl e" and "e = FileExistsError"
  then have ex: "file_exists fs p" by (simp add: open_x_def split: if_splits)
  let ?S = "\<lambda>r. {k. r < k \<and> file_exists fs (retry_path os init k)}"
  have fin: "finite (?S r)" by (rule finite_retries)
  show "((os, fs, init, r + 1, retry_path os init (r + 1)), (os, fs, init, r, p))
    \<in> measure (\<lambda>(os, fs, init, r, p).
        2 * card {k. r < k \<and> file_exists fs (retry_path os init k)} + (if file_exists fs p then 1 else 0))"
  proof (cases "file_exists fs (retry_path os init (r + 1))")
    case True
    then have mem: "r + 1 \<in> ?S r" by simp
    have eq: "?S (r + 1) = ?S r - {r + 1}" by auto
    have "card (?S r - {r + 1}) < card (?S r)"
      using fin mem by (rule card_Diff1_less)
    then have "card (?S (r + 1)) < card (?S r)"
      by (simp only: eq)
    with ex True show ?thesis by simp
  next
    case False
    have "?S (r + 1) = ?S r"
      using False by (auto intro!: Suc_lessI)
    with ex False show ?thesis by simp
  qed
qed

declare next_outfile_loop.simps [simp del]

definition next_outfile ::
  "os_env \<Rightarrow> filesystem \<Rightarrow> string \<Rightarrow> string option \<Rightarrow> nat
   \<Rightarrow> error + (string \<times> filesystem)" where
  "next_outfile os fs input_path output_dir counter =
     (let init = initial_output_path os input_path output_dir counter 6
      in next_outfile_loop os fs init 0 init)"

subsection \<open>\<^verbatim>\<open>run_as_script\<close> (lines 73 to 159)\<close>

text \<open>The parsed command line: what \<^verbatim>\<open>process_args\<close> returns.\<close>

record args =
  input_csv :: string
  num_per_split :: int
  output_dir :: "string option"
  generate_index :: "string option"

text \<open>
  The variables of \<^verbatim>\<open>run_as_script\<close>, together with the file system they act on.
  \<^verbatim>\<open>opened\<close> is not a variable of the script: it logs, in order, the paths of the files
  that \<^verbatim>\<open>next_outfile\<close> has created, which are the output split files in sequence order.
\<close>

record run_state =
  disk :: filesystem
  state :: "scan_state list"
  record_num :: int
  output_filenum :: nat
  outfh :: "string option"
  indexfh :: "string option"
  outbuf :: string
  opened :: "string list"

text \<open>
  The input handle: the bytes of the input file and the position of the next read. The
  script creates every file it writes to, so it never writes to the file it reads.
  \<^verbatim>\<open>infh.read(n)\<close> returns the next \<^verbatim>\<open>n\<close> bytes, fewer at the end of the file, and
  \<^verbatim>\<open>infh.tell()\<close> is the position.
\<close>

record infile =
  data :: string
  pos :: nat

definition fh_read :: "infile \<Rightarrow> nat \<Rightarrow> string \<times> infile" where
  "fh_read infh n =
     (let chunk = take n (drop (pos infh) (data infh))
      in (chunk, infh\<lparr>pos := pos infh + length chunk\<rparr>))"

definition read_size :: nat where
  "read_size = 1024 * 1024"

definition TAB :: char where
  "TAB = CHR 0x09"

text \<open>
  Lines 127 to 139: the rotation at a split boundary. \<^verbatim>\<open>tell\<close> is \<^verbatim>\<open>infh.tell()\<close>, the
  position after the read of the current chunk, and \<^verbatim>\<open>index\<close> the place of the current
  byte in the chunk. Writing to \<^verbatim>\<open>outfh\<close> when it is \<^verbatim>\<open>None\<close> raises AttributeError;
  an exception of \<^verbatim>\<open>next_outfile\<close> leaves the file system as the writes before it
  made it.
\<close>

definition rotate ::
  "os_env \<Rightarrow> args \<Rightarrow> nat \<Rightarrow> nat \<Rightarrow> nat \<Rightarrow> run_state \<Rightarrow> (error \<times> filesystem) + run_state" where
  "rotate os a rs tell index s =
     (let fs1 = (case indexfh s of
                   None \<Rightarrow> disk s
                 | Some ifh \<Rightarrow>
                     fh_write (disk s) ifh
                       (str_int (record_num s) @ [TAB]
                        @ str_int (int tell - int rs + int index + 1) @ [LF]))
      in case outfh s of
           None \<Rightarrow> Inl (AttributeError, fs1)
         | Some ofh \<Rightarrow>
             (let fs2 = fh_write fs1 ofh (outbuf s)
              in case next_outfile os fs2 (input_csv a) (output_dir a) (output_filenum s + 1) of
                   Inl e \<Rightarrow> Inl (e, fs2)
                 | Inr (path, fs3) \<Rightarrow>
                     Inr (s\<lparr>disk := fs3, outbuf := [], output_filenum := output_filenum s + 1,
                            outfh := Some path, opened := opened s @ [path]\<rparr>)))"

text \<open>
  Lines 103 to 139: the body of the \<^verbatim>\<open>for\<close> loop, for one byte. \<^verbatim>\<open>%\<close> raises
  ZeroDivisionError when \<^verbatim>\<open>num_per_split\<close> is zero, and is \<open>mod\<close> on \<^typ>\<open>int\<close> otherwise
  (both take the sign of the divisor).
\<close>

definition process_byte ::
  "os_env \<Rightarrow> args \<Rightarrow> nat \<Rightarrow> nat \<Rightarrow> nat \<Rightarrow> char \<Rightarrow> run_state \<Rightarrow> (error \<times> filesystem) + run_state" where
  "process_byte os a rs tell index c s =
     (let s1 = s\<lparr>outbuf := outbuf s @ [c]\<rparr>
      in case scan_byte (state s1) c of
           Inl e \<Rightarrow> Inl (e, disk s1)
         | Inr (state1, is_end) \<Rightarrow>
             (let s2 = s1\<lparr>state := state1\<rparr>
              in if is_end then
                   (let s3 = s2\<lparr>record_num := record_num s2 + 1\<rparr>
                    in if num_per_split a = 0 then Inl (ZeroDivisionError, disk s3)
                       else if record_num s3 mod num_per_split a = 0
                       then rotate os a rs tell index s3
                       else Inr s3)
                 else Inr s2))"

text \<open>Line 102: \<^verbatim>\<open>for (index, char) in enumerate(inbuf)\<close>.\<close>

fun for_enumerate ::
  "os_env \<Rightarrow> args \<Rightarrow> nat \<Rightarrow> nat \<Rightarrow> nat \<Rightarrow> string \<Rightarrow> run_state \<Rightarrow> (error \<times> filesystem) + run_state" where
  "for_enumerate os a rs tell index [] s = Inr s"
| "for_enumerate os a rs tell index (c # inbuf) s =
     (case process_byte os a rs tell index c s of
        Inl e \<Rightarrow> Inl e
      | Inr s1 \<Rightarrow> for_enumerate os a rs tell (index + 1) inbuf s1)"

text \<open>Lines 101 to 142: \<^verbatim>\<open>while inbuf\<close>.\<close>

function while_inbuf ::
  "os_env \<Rightarrow> args \<Rightarrow> nat \<Rightarrow> infile \<Rightarrow> string \<Rightarrow> run_state \<Rightarrow> (error \<times> filesystem) + run_state" where
  "while_inbuf os a rs infh inbuf s =
     (if inbuf = [] then Inr s
      else
        (case for_enumerate os a rs (pos infh) 0 inbuf s of
           Inl e \<Rightarrow> Inl e
         | Inr s1 \<Rightarrow>
             (case outfh s1 of
                None \<Rightarrow> Inl (AttributeError, disk s1)
              | Some ofh \<Rightarrow>
                  while_inbuf os a rs (snd (fh_read infh rs)) (fst (fh_read infh rs))
                    (s1\<lparr>disk := fh_write (disk s1) ofh (outbuf s1), outbuf := []\<rparr>))))"
  by pat_completeness auto
termination
  by (relation "measure (\<lambda>(os, a, rs, infh, inbuf, s).
        2 * (length (data infh) - pos infh) + (if inbuf = [] then 0 else 1))")
     (auto simp: fh_read_def Let_def)

declare while_inbuf.simps [simp del]

text \<open>Lines 75 to 79, 91 and 100: the variables before the first read.\<close>

definition init_state :: "filesystem \<Rightarrow> run_state" where
  "init_state fs =
     \<lparr>disk = fs, state = [start], record_num = 0, output_filenum = 1, outfh = None,
      indexfh = None, outbuf = [], opened = []\<rparr>"

text \<open>
  Lines 85 to 89: the index file is created first, exclusively, and the first output file
  after it.
\<close>

definition open_outputs :: "os_env \<Rightarrow> args \<Rightarrow> run_state \<Rightarrow> (error \<times> filesystem) + run_state" where
  "open_outputs os a s =
     (case (if truthy (generate_index a) then
              (case open_x os (disk s) (the (generate_index a)) of
                 Inl e \<Rightarrow> Inl (e, disk s)
               | Inr fs1 \<Rightarrow> Inr (s\<lparr>disk := fs1, indexfh := generate_index a\<rparr>))
            else Inr s) of
        Inl e \<Rightarrow> Inl e
      | Inr s1 \<Rightarrow>
          (case next_outfile os (disk s1) (input_csv a) (output_dir a) (output_filenum s1) of
             Inl e \<Rightarrow> Inl (e, disk s1)
           | Inr (path, fs2) \<Rightarrow> Inr (s1\<lparr>disk := fs2, outfh := Some path, opened := [path]\<rparr>)))"

text \<open>
  Lines 143 to 148: after the loop. The \<^verbatim>\<open>finally\<close> block closes the handles, which
  changes no file's contents.
\<close>

definition flush_leftovers :: "run_state \<Rightarrow> run_state" where
  "flush_leftovers s =
     (let s1 = (if outbuf s \<noteq> [] \<and> last (outbuf s) \<noteq> LF
                then s\<lparr>record_num := record_num s + 1\<rparr> else s)
      in case outfh s1 of
           None \<Rightarrow> s1
         | Some ofh \<Rightarrow> s1\<lparr>disk := fh_write (disk s1) ofh (outbuf s1)\<rparr>)"

text \<open>
  The whole run on a file system, with the chunk size as a parameter. A run that raises
  returns the exception and the file system as it is then; a run that ends returns the
  final variables, of which line 149 prints \<^verbatim>\<open>record_num\<close> and \<^verbatim>\<open>output_filenum\<close>.
\<close>

definition run_with ::
  "nat \<Rightarrow> os_env \<Rightarrow> args \<Rightarrow> filesystem \<Rightarrow> (error \<times> filesystem) + run_state" where
  "run_with rs os a fs =
     (case map_of fs (input_csv a) of
        None \<Rightarrow> Inl (FileNotFoundError, fs)
      | Some bytes \<Rightarrow>
          (let infh = \<lparr>data = bytes, pos = 0\<rparr>;
               inbuf = fst (fh_read infh rs);
               infh1 = snd (fh_read infh rs)
           in case (if inbuf \<noteq> [] then open_outputs os a (init_state fs)
                    else Inr (init_state fs)) of
                Inl e \<Rightarrow> Inl e
              | Inr s \<Rightarrow>
                  (case while_inbuf os a rs infh1 inbuf s of
                     Inl e \<Rightarrow> Inl e
                   | Inr s1 \<Rightarrow> Inr (flush_leftovers s1))))"

definition run_as_script :: "os_env \<Rightarrow> args \<Rightarrow> filesystem \<Rightarrow> (error \<times> filesystem) + run_state" where
  "run_as_script os a fs = run_with read_size os a fs"

text \<open>The contents of the output split files of a final state, in sequence order.\<close>

definition split_files :: "run_state \<Rightarrow> string list" where
  "split_files s = map (contents (disk s)) (opened s)"

subsection \<open>Predicates used to state the properties\<close>

text \<open>The three stacks that the scanner can hold between two bytes.\<close>

definition reachable_stack :: "scan_state list \<Rightarrow> bool" where
  "reachable_stack st = (st = [start] \<or> st = [start, inquote] \<or> st = [start, inquote, endquote])"

text \<open>
  A stack is in order when it is not empty, its bottom is "start", it holds at most three
  entries, and every "endquote" lies directly above an "inquote".
\<close>

definition stack_ok :: "scan_state list \<Rightarrow> bool" where
  "stack_ok st =
     (st \<noteq> [] \<and> hd st = start \<and> length st \<le> 3 \<and>
      (\<forall>i < length st. st ! i = endquote \<longrightarrow> 0 < i \<and> st ! (i - 1) = inquote))"

text \<open>The paths \<^verbatim>\<open>next_outfile\<close> tries, in order: the initial one, then the retries.\<close>

definition candidate :: "os_env \<Rightarrow> string \<Rightarrow> nat \<Rightarrow> string" where
  "candidate os init k = (if k = 0 then init else retry_path os init k)"

text \<open>The index file, when one is asked for, does not exist yet.\<close>

definition index_free :: "args \<Rightarrow> filesystem \<Rightarrow> bool" where
  "index_free a fs = (truthy (generate_index a) \<longrightarrow> \<not> file_exists fs (the (generate_index a)))"

text \<open>
  The paths of a run can be created: the index path, when one is asked for, and every
  path that \<^verbatim>\<open>next_outfile\<close> can try for the input, whatever the counter and the retry.
\<close>

definition paths_creatable :: "os_env \<Rightarrow> args \<Rightarrow> bool" where
  "paths_creatable os a =
     ((truthy (generate_index a) \<longrightarrow> creatable os (the (generate_index a))) \<and>
      (\<forall>counter k. creatable os
          (candidate os (initial_output_path os (input_csv a) (output_dir a) counter 6) k)))"

subsection \<open>The invariants of a running split\<close>

text \<open>
  The handles of a running split: the current output file is the one opened last, the
  files opened so far have different paths and exist, and the index file is none of them.
\<close>

definition handles_ok :: "run_state \<Rightarrow> bool" where
  "handles_ok s =
     (opened s \<noteq> [] \<and> outfh s = Some (last (opened s)) \<and> distinct (opened s) \<and>
      (\<forall>p \<in> set (opened s). file_exists (disk s) p) \<and>
      (\<forall>p. indexfh s = Some p \<longrightarrow> file_exists (disk s) p \<and> p \<notin> set (opened s)) \<and>
      output_filenum s = length (opened s))"

text \<open>
  What the split files \<open>fls\<close> and the buffer hold after the bytes \<open>consumed\<close>: together
  they are these bytes; every file but the last is a run of exactly \<open>|num_per_split|\<close>
  records that ends with its terminating line feed and outside quotes; the last file
  and the buffer hold fewer records; the counter is the number of record ends seen.
\<close>

definition content_inv ::
  "args \<Rightarrow> string \<Rightarrow> string list \<Rightarrow> string \<Rightarrow> scan_state list \<Rightarrow> int \<Rightarrow> bool" where
  "content_inv a consumed fls buf st rn =
     (fls \<noteq> [] \<and> concat fls @ buf = consumed \<and>
      (\<forall>f \<in> set (butlast fls).
          scan_bytes [start] f = Inr ([start], nat \<bar>num_per_split a\<bar>) \<and> f \<noteq> [] \<and> last f = LF) \<and>
      (\<exists>k. scan_bytes [start] (last fls @ buf) = Inr (st, k) \<and> k < nat \<bar>num_per_split a\<bar> \<and>
           rn = \<bar>num_per_split a\<bar> * (int (length fls) - 1) + int k) \<and>
      scan_bytes [start] consumed = Inr (st, nat rn) \<and> 0 \<le> rn \<and> reachable_stack st)"

definition run_inv :: "args \<Rightarrow> string \<Rightarrow> run_state \<Rightarrow> bool" where
  "run_inv a consumed s =
     (handles_ok s \<and> content_inv a consumed (split_files s) (outbuf s) (state s) (record_num s))"

section \<open>Evaluation\<close>

lemma replicate_numeral: "replicate (numeral k) x = x # replicate (pred_numeral k) x"
  by (simp add: numeral_eq_Suc)

lemmas scan_defs =
  scan_byte_def resolve_endquote_def classify_def top_def pop_def dquote_def LF_def

lemmas path_defs =
  posixpath_def posix_splitext_def posix_split_def posix_join_def posix_tail_def posix_head_def
  zero_pad_def str_nat.simps str_int_def digit_char_def replicate_numeral
  next_outfile_def initial_output_path_def retry_path_def next_outfile_loop.simps
  truthy_def open_x_def file_exists_def

lemmas run_defs =
  run_as_script_def run_with_def read_size_def fh_read_def open_outputs_def
  init_state_def flush_leftovers_def fh_write_def while_inbuf.simps process_byte_def rotate_def
  TAB_def Let_def

section \<open>The scanner\<close>
lemmas step_defs = scan_byte_def resolve_endquote_def classify_def top_def pop_def

lemma dquote_not_LF: "dquote \<noteq> LF"
  by (simp add: dquote_def LF_def)

lemma scan_byte_start:
  "scan_byte [start] c = Inr (if c = dquote then ([start, inquote], False) else ([start], c = LF))"
  by (simp add: step_defs)

lemma scan_byte_inquote:
  "scan_byte [start, inquote] c =
     Inr (if c = dquote then ([start, inquote, endquote], False) else ([start, inquote], False))"
  by (simp add: step_defs)

lemma scan_byte_endquote:
  "scan_byte [start, inquote, endquote] c =
     Inr (if c = dquote then ([start, inquote], False) else ([start], c = LF))"
  by (simp add: step_defs)

lemma scan_byte_reachable:
  assumes "reachable_stack st"
  shows "\<exists>st' b. scan_byte st c = Inr (st', b) \<and> reachable_stack st'
           \<and> (b \<longrightarrow> c = LF \<and> st' = [start])"
  using assms unfolding reachable_stack_def
  by (auto simp: scan_byte_start scan_byte_inquote scan_byte_endquote)

lemma scan_bytes_reachable:
  "reachable_stack st \<Longrightarrow> \<exists>st' k. scan_bytes st cs = Inr (st', k) \<and> reachable_stack st'"
proof (induction cs arbitrary: st)
  case Nil
  then show ?case by simp
next
  case (Cons c cs)
  from scan_byte_reachable [OF Cons.prems, of c]
  obtain st1 b where 1: "scan_byte st c = Inr (st1, b)" and r: "reachable_stack st1" by blast
  from Cons.IH [OF r] obtain st2 k where "scan_bytes st1 cs = Inr (st2, k)" "reachable_stack st2"
    by blast
  with 1 show ?case by simp
qed

lemma scan_bytes_append:
  "scan_bytes st xs = Inr (st1, j) \<Longrightarrow> scan_bytes st1 ys = Inr (st2, k)
   \<Longrightarrow> scan_bytes st (xs @ ys) = Inr (st2, j + k)"
proof (induction xs arbitrary: st j)
  case Nil
  then show ?case by simp
next
  case (Cons x xs)
  from Cons.prems(1) obtain sa b sb i where
    a: "scan_byte st x = Inr (sa, b)" and b: "scan_bytes sa xs = Inr (sb, i)"
    and c: "st1 = sb" "j = (if b then 1 else 0) + i"
    by (auto split: sum.splits prod.splits)
  from Cons.IH [of sa i] b c Cons.prems(2) have "scan_bytes sa (xs @ ys) = Inr (st2, i + k)"
    by simp
  with a c show ?case by simp
qed

lemma scan_bytes_snoc:
  "scan_bytes st xs = Inr (st1, j) \<Longrightarrow> scan_byte st1 c = Inr (st2, b)
   \<Longrightarrow> scan_bytes st (xs @ [c]) = Inr (st2, j + (if b then 1 else 0))"
proof -
  assume a: "scan_bytes st xs = Inr (st1, j)" and b: "scan_byte st1 c = Inr (st2, b)"
  from b have "scan_bytes st1 [c] = Inr (st2, (if b then 1 else 0))" by simp
  from scan_bytes_append [OF a this] show ?thesis .
qed

lemma reachable_stack_ok: "reachable_stack st \<Longrightarrow> stack_ok st"
  by (auto simp: reachable_stack_def stack_ok_def nth_Cons split: nat.splits)

lemma stack_ok_literal: "stack_ok [start, inquote, literal_quote]"
  by (auto simp: stack_ok_def nth_Cons split: nat.splits)

lemma resolve_endquote_ok:
  assumes "reachable_stack st"
  shows "\<exists>st1 r. resolve_endquote st c = Inr st1 \<and> stack_ok st1 \<and> classify st1 c = Inr r"
proof -
  have ok: "stack_ok [start]" "stack_ok [start, inquote]"
    by (rule reachable_stack_ok, simp add: reachable_stack_def)+
  from assms consider "st = [start]" | "st = [start, inquote]" | "st = [start, inquote, endquote]"
    unfolding reachable_stack_def by blast
  then show ?thesis
  proof cases
    case 1
    then show ?thesis using ok by (auto simp: resolve_endquote_def classify_def top_def pop_def)
  next
    case 2
    then show ?thesis using ok by (auto simp: resolve_endquote_def classify_def top_def pop_def)
  next
    case 3
    then show ?thesis using ok stack_ok_literal
      by (auto simp: resolve_endquote_def classify_def top_def pop_def)
  qed
qed

text \<open>
  C5. The bytes \<^verbatim>\<open>"a""b"\<close> followed by a line feed, scanned from the initial stack, make
  one record and leave the stack at "start"; after the doubled quote the scanner is
  still inside the quoted field. The script run on a file of these bytes reports one
  record.
\<close>

theorem escaped_quote_one_record:
  \<open>scan_bytes [start] (''"a""b"'' @ [LF]) = Inr ([start], 1) \<and>
   scan_bytes [start] ''"a""'' = Inr ([start, inquote], 0) \<and>
   (case run_as_script posixpath
           \<lparr>input_csv = ''in.csv'', num_per_split = 100000, output_dir = None,
              generate_index = None\<rparr>
           [(''in.csv'', ''"a""b"'' @ [LF])] of
      Inl e \<Rightarrow> False
    | Inr s \<Rightarrow> record_num s = 1 \<and> state s = [start])\<close>
  by (simp add: scan_defs path_defs run_defs)

text \<open>
  C9. Scanning any input from the initial stack never reads or pops an empty stack: no
  IndexError is raised, the double pop included. The stack between two bytes, and the
  stack between the two \<^verbatim>\<open>if\<close> chains at any next byte, is not empty, has "start" at the
  bottom, has depth at most three, and has "endquote" only directly above "inquote".
\<close>

theorem stack_never_empty:
  "\<exists>st k. scan_bytes [start] cs = Inr (st, k) \<and> stack_ok st \<and>
     (\<forall>c. \<exists>st1 r. resolve_endquote st c = Inr st1 \<and> stack_ok st1 \<and> classify st1 c = Inr r)"
proof -
  have "reachable_stack [start]" by (simp add: reachable_stack_def)
  from scan_bytes_reachable [OF this, of cs]
  obtain st k where 1: "scan_bytes [start] cs = Inr (st, k)" and r: "reachable_stack st" by blast
  from r have "stack_ok st" by (rule reachable_stack_ok)
  moreover from r have
    "\<forall>c. \<exists>st1 r. resolve_endquote st c = Inr st1 \<and> stack_ok st1 \<and> classify st1 c = Inr r"
    by (blast dest: resolve_endquote_ok)
  ultimately show ?thesis using 1 by blast
qed

theorem stack_never_empty_witness:
  "scan_bytes [start] [dquote, CHR ''a'', dquote] = Inr ([start, inquote, endquote], 0) \<and>
   stack_ok [start, inquote, endquote] \<and>
   resolve_endquote [start, inquote, endquote] LF = Inr [start] \<and>
   resolve_endquote [start, inquote, endquote] dquote = Inr [start, inquote, literal_quote]"
  using stack_never_empty [of "[dquote, CHR ''a'', dquote]"]
  by (simp add: scan_defs)

section \<open>The file system and \<^verbatim>\<open>next_outfile\<close>\<close>

lemma map_of_fh_write:
  "map_of (fh_write fs fh d) p =
     (if p = fh then map_option (\<lambda>old. old @ d) (map_of fs p) else map_of fs p)"
  unfolding fh_write_def by (induction fs) auto

lemma file_exists_fh_write [simp]: "file_exists (fh_write fs fh d) p = file_exists fs p"
  by (simp add: file_exists_def map_of_fh_write)

lemma contents_fh_write:
  "contents (fh_write fs fh d) p =
     (if p = fh \<and> file_exists fs fh then contents fs p @ d else contents fs p)"
  by (auto simp: contents_def file_exists_def map_of_fh_write split: option.splits)

lemma fh_write_Nil [simp]: "fh_write fs fh [] = fs"
  unfolding fh_write_def by (induction fs) auto

lemma file_exists_Cons [simp]: "file_exists ((q, d) # fs) p = (p = q \<or> file_exists fs p)"
  by (auto simp: file_exists_def)

lemma contents_Cons [simp]: "contents ((q, d) # fs) p = (if p = q then d else contents fs p)"
  by (simp add: contents_def)

lemma next_outfile_loop_spec:
  assumes "p = candidate os init r" and "\<forall>j<r. file_exists fs (candidate os init j)"
  shows "\<exists>k. (\<forall>j<k. file_exists fs (candidate os init j))
            \<and> \<not> file_exists fs (candidate os init k)
            \<and> next_outfile_loop os fs init r p
              = (if creatable os (candidate os init k)
                 then Inr (candidate os init k, (candidate os init k, []) # fs)
                 else Inl FileNotFoundError)"
  using assms
proof (induction os fs init r p rule: next_outfile_loop.induct)
  case (1 os fs init r p)
  show ?case
  proof (cases "file_exists fs p")
    case False
    then have "next_outfile_loop os fs init r p
        = (if creatable os p then Inr (p, (p, []) # fs) else Inl FileNotFoundError)"
      by (subst next_outfile_loop.simps) (simp add: open_x_def)
    with "1.prems" False show ?thesis by blast
  next
    case True
    then have ox: "open_x os fs p = Inl FileExistsError" by (simp add: open_x_def)
    then have unfold: "next_outfile_loop os fs init r p
        = next_outfile_loop os fs init (r + 1) (retry_path os init (r + 1))"
      by (subst next_outfile_loop.simps) simp
    have c: "retry_path os init (r + 1) = candidate os init (r + 1)"
      by (simp add: candidate_def)
    have "file_exists fs (candidate os init r)" using True "1.prems"(1) by simp
    with "1.prems"(2) have all: "\<forall>j<r + 1. file_exists fs (candidate os init j)"
      by (auto simp: less_Suc_eq)
    from "1.IH" [OF ox refl c all] unfold show ?thesis by simp
  qed
qed

lemma next_outfile_cases:
  "\<exists>k. (\<forall>j<k. file_exists fs (candidate os (initial_output_path os input_path odir counter 6) j))
      \<and> \<not> file_exists fs (candidate os (initial_output_path os input_path odir counter 6) k)
      \<and> next_outfile os fs input_path odir counter
        = (if creatable os (candidate os (initial_output_path os input_path odir counter 6) k)
           then Inr (candidate os (initial_output_path os input_path odir counter 6) k,
                     (candidate os (initial_output_path os input_path odir counter 6) k, []) # fs)
           else Inl FileNotFoundError)"
proof -
  let ?init = "initial_output_path os input_path odir counter 6"
  have "?init = candidate os ?init 0" by (simp add: candidate_def)
  from next_outfile_loop_spec [OF this, of fs] show ?thesis
    by (simp add: next_outfile_def Let_def)
qed

lemma next_outfile_spec:
  assumes "next_outfile os fs input_path odir counter = Inr (path, fs')"
  shows "\<not> file_exists fs path \<and> fs' = (path, []) # fs"
  using next_outfile_cases [of fs os input_path odir counter] assms
  by (auto split: if_splits)

lemma next_outfile_returns:
  assumes "\<forall>k. creatable os (candidate os (initial_output_path os input_path odir counter 6) k)"
  shows "\<exists>path fs'. next_outfile os fs input_path odir counter = Inr (path, fs')"
  using next_outfile_cases [of fs os input_path odir counter] assms by auto

text \<open>
  C7. \<^verbatim>\<open>next_outfile\<close> always ends. Among the candidate paths, in order, there is a first
  one that does not exist, all earlier ones being taken. When a file can be created
  there, \<^verbatim>\<open>next_outfile\<close> returns this path, now an empty file, and every other path of
  the file system is as it was; when none can (its directory is missing), it raises
  FileNotFoundError and has created nothing. It never returns an existing path. The
  candidates are: the initial path, which is the input's base, an underscore, the counter
  padded to six digits and the input's extension, either beside the input or, with an
  output directory, the directory joined with this name built from the input's file
  name; then, for the retry \<open>k = 1, 2, \<dots>\<close>, the base of the initial path, an
  underscore, \<open>k\<close> and the extension of the initial path.
\<close>

theorem next_outfile_exclusive:
  "(\<forall>path fs'. next_outfile os fs input_path odir counter = Inr (path, fs') \<longrightarrow>
      \<not> file_exists fs path \<and> creatable os path \<and> fs' = (path, []) # fs \<and>
      map_of fs' path = Some [] \<and> (\<forall>p. p \<noteq> path \<longrightarrow> map_of fs' p = map_of fs p) \<and>
      (\<exists>k. path = candidate os (initial_output_path os input_path odir counter 6) k \<and>
           (\<forall>j<k. file_exists fs
                    (candidate os (initial_output_path os input_path odir counter 6) j)))) \<and>
   (\<exists>k. (\<forall>j<k. file_exists fs
                  (candidate os (initial_output_path os input_path odir counter 6) j)) \<and>
        \<not> file_exists fs (candidate os (initial_output_path os input_path odir counter 6) k) \<and>
        (creatable os (candidate os (initial_output_path os input_path odir counter 6) k) \<longrightarrow>
           next_outfile os fs input_path odir counter
           = Inr (candidate os (initial_output_path os input_path odir counter 6) k,
                  (candidate os (initial_output_path os input_path odir counter 6) k, []) # fs)) \<and>
        (\<not> creatable os (candidate os (initial_output_path os input_path odir counter 6) k) \<longrightarrow>
           next_outfile os fs input_path odir counter = Inl FileNotFoundError)) \<and>
   (\<not> truthy odir \<longrightarrow>
      candidate os (initial_output_path os input_path odir counter 6) 0
      = fst (path_splitext os input_path) @ ''_'' @ zero_pad 6 (str_nat counter)
        @ snd (path_splitext os input_path)) \<and>
   (truthy odir \<longrightarrow>
      candidate os (initial_output_path os input_path odir counter 6) 0
      = path_join os (the odir)
          (fst (path_splitext os (snd (path_split os input_path))) @ ''_''
           @ zero_pad 6 (str_nat counter)
           @ snd (path_splitext os (snd (path_split os input_path))))) \<and>
   (\<forall>k>0. \<forall>init. candidate os init k
      = fst (path_splitext os init) @ ''_'' @ str_nat k @ snd (path_splitext os init))"
proof -
  let ?init = "initial_output_path os input_path odir counter 6"
  from next_outfile_cases [of fs os input_path odir counter] obtain k where
    k: "\<forall>j<k. file_exists fs (candidate os ?init j)" "\<not> file_exists fs (candidate os ?init k)"
    and r: "next_outfile os fs input_path odir counter
        = (if creatable os (candidate os ?init k)
           then Inr (candidate os ?init k, (candidate os ?init k, []) # fs)
           else Inl FileNotFoundError)" by blast
  have A: "\<forall>path fs'. next_outfile os fs input_path odir counter = Inr (path, fs') \<longrightarrow>
      \<not> file_exists fs path \<and> creatable os path \<and> fs' = (path, []) # fs \<and>
      map_of fs' path = Some [] \<and> (\<forall>p. p \<noteq> path \<longrightarrow> map_of fs' p = map_of fs p) \<and>
      (\<exists>k. path = candidate os ?init k \<and> (\<forall>j<k. file_exists fs (candidate os ?init j)))"
  proof (intro allI impI)
    fix path fs'
    assume "next_outfile os fs input_path odir counter = Inr (path, fs')"
    with r have c: "creatable os (candidate os ?init k)" and p: "path = candidate os ?init k"
      and f: "fs' = (path, []) # fs" by (auto split: if_splits)
    from k p c f show "\<not> file_exists fs path \<and> creatable os path \<and> fs' = (path, []) # fs \<and>
      map_of fs' path = Some [] \<and> (\<forall>p. p \<noteq> path \<longrightarrow> map_of fs' p = map_of fs p) \<and>
      (\<exists>k. path = candidate os ?init k \<and> (\<forall>j<k. file_exists fs (candidate os ?init j)))"
      by auto
  qed
  have B: "\<exists>k. (\<forall>j<k. file_exists fs (candidate os ?init j)) \<and>
        \<not> file_exists fs (candidate os ?init k) \<and>
        (creatable os (candidate os ?init k) \<longrightarrow>
           next_outfile os fs input_path odir counter
           = Inr (candidate os ?init k, (candidate os ?init k, []) # fs)) \<and>
        (\<not> creatable os (candidate os ?init k) \<longrightarrow>
           next_outfile os fs input_path odir counter = Inl FileNotFoundError)"
    using k r by (intro exI [of _ k]) simp
  have C: "\<not> truthy odir \<longrightarrow> candidate os ?init 0
        = fst (path_splitext os input_path) @ ''_'' @ zero_pad 6 (str_nat counter)
          @ snd (path_splitext os input_path)"
    by (simp add: candidate_def initial_output_path_def split: prod.splits)
  have D: "truthy odir \<longrightarrow> candidate os ?init 0
      = path_join os (the odir)
          (fst (path_splitext os (snd (path_split os input_path))) @ ''_''
           @ zero_pad 6 (str_nat counter)
           @ snd (path_splitext os (snd (path_split os input_path))))"
    by (simp add: candidate_def initial_output_path_def split: prod.splits)
  have E: "\<forall>k>0. \<forall>init. candidate os init k
        = fst (path_splitext os init) @ ''_'' @ str_nat k @ snd (path_splitext os init)"
    by (simp add: candidate_def retry_path_def split: prod.splits)
  from A B C D E show ?thesis by (intro conjI)
qed

theorem next_outfile_exclusive_witness:
  "next_outfile posixpath [(''data_000001.csv'', ''x''), (''data_000001_1.csv'', ''y'')]
     ''data.csv'' None 1
   = Inr (''data_000001_2.csv'',
      [(''data_000001_2.csv'', []), (''data_000001.csv'', ''x''), (''data_000001_1.csv'', ''y'')]) \<and>
   candidate posixpath (initial_output_path posixpath ''data.csv'' None 1 6) 0 = ''data_000001.csv'' \<and>
   candidate posixpath (initial_output_path posixpath ''data.csv'' None 1 6) 1 = ''data_000001_1.csv'' \<and>
   candidate posixpath (initial_output_path posixpath ''data.csv'' None 1 6) 2 = ''data_000001_2.csv'' \<and>
   \<not> file_exists [(''data_000001.csv'', ''x''), (''data_000001_1.csv'', ''y'')] ''data_000001_2.csv'' \<and>
   next_outfile posixpath [(''out/data_000012.csv'', ''x'')] ''/tmp/data.csv'' (Some ''out'') 12
   = Inr (''out/data_000012_1.csv'',
      [(''out/data_000012_1.csv'', []), (''out/data_000012.csv'', ''x'')]) \<and>
   candidate posixpath (initial_output_path posixpath ''/tmp/data.csv'' (Some ''out'') 12 6) 0
   = ''out/data_000012.csv'' \<and>
   path_join posixpath ''out''
     (fst (path_splitext posixpath (snd (path_split posixpath ''/tmp/data.csv''))) @ ''_''
      @ zero_pad 6 (str_nat 12)
      @ snd (path_splitext posixpath (snd (path_split posixpath ''/tmp/data.csv''))))
   = ''out/data_000012.csv'' \<and>
   next_outfile (posixpath\<lparr>creatable := (\<lambda>path. take 6 path \<noteq> ''nodir/'')\<rparr>)
     [(''data.csv'', ''x'')] ''data.csv'' (Some ''nodir'') 1
   = Inl FileNotFoundError"
proof -
  let ?fs1 = "[(''data_000001.csv'', ''x''), (''data_000001_1.csv'', ''y'')]"
  let ?fs2 = "[(''out/data_000012.csv'', ''x'')]"
  have e1: "next_outfile posixpath ?fs1 ''data.csv'' None 1
      = Inr (''data_000001_2.csv'', (''data_000001_2.csv'', []) # ?fs1)"
    by (simp add: path_defs)
  have e2: "next_outfile posixpath ?fs2 ''/tmp/data.csv'' (Some ''out'') 12
      = Inr (''out/data_000012_1.csv'', (''out/data_000012_1.csv'', []) # ?fs2)"
    by (simp add: path_defs)
  have e3: "next_outfile (posixpath\<lparr>creatable := (\<lambda>path. take 6 path \<noteq> ''nodir/'')\<rparr>)
       [(''data.csv'', ''x'')] ''data.csv'' (Some ''nodir'') 1 = Inl FileNotFoundError"
    by (simp add: path_defs)
  have c: "candidate posixpath (initial_output_path posixpath ''data.csv'' None 1 6) 0
             = ''data_000001.csv''"
    "candidate posixpath (initial_output_path posixpath ''data.csv'' None 1 6) 1
             = ''data_000001_1.csv''"
    "candidate posixpath (initial_output_path posixpath ''data.csv'' None 1 6) 2
             = ''data_000001_2.csv''"
    by (simp_all add: path_defs candidate_def)
  note t1 = next_outfile_exclusive [of posixpath ?fs1 "''data.csv''" None 1]
  from t1 [THEN conjunct1, rule_format, OF e1]
  have n1: "\<not> file_exists ?fs1 ''data_000001_2.csv''" by blast
  note t2 = next_outfile_exclusive [of posixpath ?fs2 "''/tmp/data.csv''" "Some ''out''" 12]
  have "truthy (Some ''out'')" by (simp add: truthy_def)
  with t2 [THEN conjunct2, THEN conjunct2, THEN conjunct2, THEN conjunct1]
  have d: "candidate posixpath (initial_output_path posixpath ''/tmp/data.csv'' (Some ''out'') 12 6) 0
      = path_join posixpath ''out''
         (fst (path_splitext posixpath (snd (path_split posixpath ''/tmp/data.csv''))) @ ''_''
          @ zero_pad 6 (str_nat 12)
          @ snd (path_splitext posixpath (snd (path_split posixpath ''/tmp/data.csv''))))"
    by simp
  have j: "path_join posixpath ''out''
         (fst (path_splitext posixpath (snd (path_split posixpath ''/tmp/data.csv''))) @ ''_''
          @ zero_pad 6 (str_nat 12)
          @ snd (path_splitext posixpath (snd (path_split posixpath ''/tmp/data.csv''))))
        = ''out/data_000012.csv''"
    by (simp add: path_defs)
  from e1 e2 e3 c n1 d j show ?thesis by simp
qed

section \<open>The run\<close>

lemma read_size_pos: "0 < read_size"
  by (simp add: read_size_def)

text \<open>
  C8. When the input is not empty and the index path names an existing file, the run
  raises FileExistsError, and the file system is then as it was before the run: no split
  file has been created, nothing has been written, the existing index file is unchanged.
\<close>

theorem existing_index_fails_first:
  "map_of fs (input_csv a) = Some bytes \<Longrightarrow> bytes \<noteq> [] \<Longrightarrow> truthy (generate_index a)
   \<Longrightarrow> file_exists fs (the (generate_index a))
   \<Longrightarrow> run_as_script os a fs = Inl (FileExistsError, fs)"
  using read_size_pos
  by (simp add: run_as_script_def run_with_def fh_read_def open_outputs_def open_x_def
      init_state_def)

theorem existing_index_fails_first_witness:
  "run_as_script posixpath
     \<lparr>input_csv = ''in.csv'', num_per_split = 2, output_dir = None,
        generate_index = Some ''in.idx''\<rparr>
     [(''in.csv'', ''a''), (''in.idx'', ''old'')]
   = Inl (FileExistsError, [(''in.csv'', ''a''), (''in.idx'', ''old'')])"
  using existing_index_fails_first [of "[(''in.csv'', ''a''), (''in.idx'', ''old'')]"
      "\<lparr>input_csv = ''in.csv'', num_per_split = 2, output_dir = None,
         generate_index = Some ''in.idx''\<rparr>" "''a''" posixpath]
  by (simp add: truthy_def file_exists_def)

text \<open>
  C2. On the one-byte input \<^verbatim>\<open>a\<close>, which ends without a line feed, the run reports 0
  records: the loop has emptied \<^verbatim>\<open>outbuf\<close> (line 141) before line 144 tests it, so the
  increment of line 146 is never reached.
\<close>

theorem unterminated_record_not_counted:
  "run_as_script posixpath
     \<lparr>input_csv = ''in.csv'', num_per_split = 100000, output_dir = None,
        generate_index = None\<rparr>
     [(''in.csv'', ''a'')]
   = Inr \<lparr>disk = [(''in_000001.csv'', ''a''), (''in.csv'', ''a'')], state = [start],
          record_num = 0, output_filenum = 1, outfh = Some ''in_000001.csv'', indexfh = None,
          outbuf = [], opened = [''in_000001.csv'']\<rparr>"
  by (simp add: scan_defs path_defs run_defs)

text \<open>
  C3. On the two-byte input \<^verbatim>\<open>a\<close>, line feed, with one record per split, the index
  entry for record 1 holds the offset -1048572 where the byte after the line feed is at
  offset 2: line 129 subtracts \<^verbatim>\<open>read_size\<close> from \<^verbatim>\<open>infh.tell()\<close>, which is right only
  when the chunk read last is a full one.
\<close>

theorem index_offset_short_chunk:
  "run_as_script posixpath
     \<lparr>input_csv = ''in.csv'', num_per_split = 1, output_dir = None,
        generate_index = Some ''in.idx''\<rparr>
     [(''in.csv'', [CHR ''a'', LF])]
   = Inr \<lparr>disk = [(''in_000002.csv'', []), (''in_000001.csv'', [CHR ''a'', LF]),
                  (''in.idx'', ''1'' @ [TAB] @ ''-1048572'' @ [LF]),
                  (''in.csv'', [CHR ''a'', LF])],
          state = [start], record_num = 1, output_filenum = 2,
          outfh = Some ''in_000002.csv'', indexfh = Some ''in.idx'', outbuf = [],
          opened = [''in_000001.csv'', ''in_000002.csv'']\<rparr>"
  by (simp add: scan_defs path_defs run_defs)

section \<open>Invariants of the run\<close>

lemma split_boundary:
  assumes "n \<noteq> 0" and "k < nat \<bar>n\<bar>"
  shows "((\<bar>n\<bar> * j + int k + 1) mod n = 0) = (Suc k = nat \<bar>n\<bar>)"
proof -
  have "((\<bar>n\<bar> * j + int k + 1) mod n = 0) = (n dvd \<bar>n\<bar> * j + (int k + 1))"
    by (simp add: dvd_eq_mod_eq_0 add.assoc)
  also have "\<dots> = (\<bar>n\<bar> dvd \<bar>n\<bar> * j + (int k + 1))" by simp
  also have "\<dots> = (\<bar>n\<bar> dvd int k + 1)" by (rule dvd_add_right_iff) simp
  also have "\<dots> = (Suc k = nat \<bar>n\<bar>)"
  proof
    assume d: "\<bar>n\<bar> dvd int k + 1"
    have "0 < int k + 1" by simp
    with d have "\<bar>n\<bar> \<le> int k + 1" by (rule zdvd_imp_le)
    with assms(2) show "Suc k = nat \<bar>n\<bar>" by linarith
  next
    assume "Suc k = nat \<bar>n\<bar>"
    then have "int k + 1 = \<bar>n\<bar>" by linarith
    then show "\<bar>n\<bar> dvd int k + 1" by simp
  qed
  finally show ?thesis .
qed

lemma map_upd_last:
  assumes "xs \<noteq> []" and "distinct xs"
  shows "map (\<lambda>p. if p = last xs then f p @ d else f p) xs
         = butlast (map f xs) @ [last (map f xs) @ d]"
proof -
  from assms(1) obtain ys x where xs: "xs = ys @ [x]" by (cases xs rule: rev_cases) auto
  with assms(2) have "x \<notin> set ys" by simp
  then have "map (\<lambda>p. if p = x then f p @ d else f p) ys = map f ys" by (induction ys) auto
  with xs show ?thesis by simp
qed

lemma split_files_frame:
  "opened s' = opened s \<Longrightarrow> disk s' = disk s \<Longrightarrow> split_files s' = split_files s"
  by (simp add: split_files_def)

lemma handles_ok_frame:
  "handles_ok s \<Longrightarrow> opened s' = opened s \<Longrightarrow> disk s' = disk s \<Longrightarrow> outfh s' = outfh s
   \<Longrightarrow> indexfh s' = indexfh s \<Longrightarrow> output_filenum s' = output_filenum s \<Longrightarrow> handles_ok s'"
  by (simp add: handles_ok_def)

lemma write_current:
  assumes h: "handles_ok s"
  shows "map (contents (fh_write (disk s) (last (opened s)) d)) (opened s)
         = butlast (split_files s) @ [last (split_files s) @ d]"
proof -
  let ?f = "contents (disk s)"
  from h have ne: "opened s \<noteq> []" and di: "distinct (opened s)"
    and ex: "file_exists (disk s) (last (opened s))"
    by (auto simp: handles_ok_def)
  have "map (contents (fh_write (disk s) (last (opened s)) d)) (opened s)
        = map (\<lambda>p. if p = last (opened s) then ?f p @ d else ?f p) (opened s)"
    using ex by (intro map_cong refl) (simp add: contents_fh_write)
  also have "\<dots> = butlast (map ?f (opened s)) @ [last (map ?f (opened s)) @ d]"
    using ne di by (rule map_upd_last)
  finally show ?thesis by (simp add: split_files_def)
qed

lemma write_index:
  assumes h: "handles_ok s" and i: "indexfh s = Some ifh"
  shows "handles_ok (s\<lparr>disk := fh_write (disk s) ifh d\<rparr>)"
    and "split_files (s\<lparr>disk := fh_write (disk s) ifh d\<rparr>) = split_files s"
proof -
  from h i have "ifh \<notin> set (opened s)" by (simp add: handles_ok_def)
  then have "map (contents (fh_write (disk s) ifh d)) (opened s) = map (contents (disk s)) (opened s)"
    by (intro map_cong refl) (auto simp: contents_fh_write)
  then show "split_files (s\<lparr>disk := fh_write (disk s) ifh d\<rparr>) = split_files s"
    by (simp add: split_files_def)
  from h show "handles_ok (s\<lparr>disk := fh_write (disk s) ifh d\<rparr>)"
    by (simp add: handles_ok_def)
qed

lemma flush_current:
  assumes h: "handles_ok s" and o: "outfh s = Some ofh"
  shows "handles_ok (s\<lparr>disk := fh_write (disk s) ofh d, outbuf := b\<rparr>)"
    and "split_files (s\<lparr>disk := fh_write (disk s) ofh d, outbuf := b\<rparr>)
         = butlast (split_files s) @ [last (split_files s) @ d]"
proof -
  from h o have l: "ofh = last (opened s)" by (simp add: handles_ok_def)
  from h show "handles_ok (s\<lparr>disk := fh_write (disk s) ofh d, outbuf := b\<rparr>)"
    by (simp add: handles_ok_def)
  from write_current [OF h, of d] l
  show "split_files (s\<lparr>disk := fh_write (disk s) ofh d, outbuf := b\<rparr>)
         = butlast (split_files s) @ [last (split_files s) @ d]"
    by (simp add: split_files_def)
qed

lemma create_next:
  assumes h: "handles_ok s" and n: "\<not> file_exists (disk s) path"
  shows "handles_ok (s\<lparr>disk := (path, []) # disk s, output_filenum := output_filenum s + 1,
                        outfh := Some path, opened := opened s @ [path]\<rparr>)"
    and "split_files (s\<lparr>disk := (path, []) # disk s, output_filenum := output_filenum s + 1,
                        outfh := Some path, opened := opened s @ [path]\<rparr>)
         = split_files s @ [[]]"
proof -
  from h n have notin: "path \<notin> set (opened s)" by (auto simp: handles_ok_def)
  from h n notin
  show "handles_ok (s\<lparr>disk := (path, []) # disk s, output_filenum := output_filenum s + 1,
                        outfh := Some path, opened := opened s @ [path]\<rparr>)"
    by (auto simp: handles_ok_def)
  from notin have "map (contents ((path, []) # disk s)) (opened s) = map (contents (disk s)) (opened s)"
    by (intro map_cong refl) auto
  then show "split_files (s\<lparr>disk := (path, []) # disk s, output_filenum := output_filenum s + 1,
                        outfh := Some path, opened := opened s @ [path]\<rparr>)
         = split_files s @ [[]]"
    by (simp add: split_files_def)
qed


lemma content_step:
  assumes inv: "content_inv a consumed fls buf st rn"
    and sb: "scan_byte st c = Inr (st', b)" and r: "reachable_stack st'"
    and n: "num_per_split a \<noteq> 0"
    and norot: "b \<longrightarrow> (rn + 1) mod num_per_split a \<noteq> 0"
  shows "content_inv a (consumed @ [c]) fls (buf @ [c]) st' (rn + (if b then 1 else 0))"
proof -
  let ?N = "nat \<bar>num_per_split a\<bar>"
  from inv obtain k where k: "scan_bytes [start] (last fls @ buf) = Inr (st, k)" "k < ?N"
    "rn = \<bar>num_per_split a\<bar> * (int (length fls) - 1) + int k"
    and all: "scan_bytes [start] consumed = Inr (st, nat rn)" and pos: "0 \<le> rn"
    and rest: "fls \<noteq> []" "concat fls @ buf = consumed"
      "\<forall>f \<in> set (butlast fls).
          scan_bytes [start] f = Inr ([start], ?N) \<and> f \<noteq> [] \<and> last f = LF"
    unfolding content_inv_def by blast
  let ?d = "if b then 1 else 0 :: nat"
  from scan_bytes_snoc [OF k(1) sb]
  have 1: "scan_bytes [start] (last fls @ buf @ [c]) = Inr (st', k + ?d)" by simp
  from scan_bytes_snoc [OF all sb] pos
  have 2: "scan_bytes [start] (consumed @ [c]) = Inr (st', nat (rn + (if b then 1 else 0)))"
    by (simp add: nat_add_distrib)
  have 3: "k + ?d < ?N"
  proof (cases b)
    case True
    with norot k(3) have "(\<bar>num_per_split a\<bar> * (int (length fls) - 1) + int k + 1) mod num_per_split a \<noteq> 0"
      by simp
    with split_boundary [OF n k(2)] have "Suc k \<noteq> ?N" by simp
    with k(2) True show ?thesis by simp
  next
    case False
    with k(2) show ?thesis by simp
  qed
  have 4: "rn + (if b then 1 else 0) = \<bar>num_per_split a\<bar> * (int (length fls) - 1) + int (k + ?d)"
    using k(3) by simp
  have 5: "0 \<le> rn + (if b then 1 else 0)" using pos by simp
  have 6: "concat fls @ buf @ [c] = consumed @ [c]" using rest(2) by simp
  show ?thesis
    unfolding content_inv_def using rest(1,3) 1 2 3 4 5 6 r by auto
qed

lemma content_rotate:
  assumes inv: "content_inv a consumed fls buf st rn"
    and sb: "scan_byte st c = Inr ([start], True)" and c: "c = LF"
    and n: "num_per_split a \<noteq> 0"
    and rot: "(rn + 1) mod num_per_split a = 0"
  shows "content_inv a (consumed @ [c]) (butlast fls @ [last fls @ buf @ [c], []]) [] [start] (rn + 1)"
proof -
  let ?N = "nat \<bar>num_per_split a\<bar>"
  from inv obtain k where k: "scan_bytes [start] (last fls @ buf) = Inr (st, k)" "k < ?N"
    "rn = \<bar>num_per_split a\<bar> * (int (length fls) - 1) + int k"
    and all: "scan_bytes [start] consumed = Inr (st, nat rn)" and pos: "0 \<le> rn"
    and rest: "fls \<noteq> []" "concat fls @ buf = consumed"
      "\<forall>f \<in> set (butlast fls).
          scan_bytes [start] f = Inr ([start], ?N) \<and> f \<noteq> [] \<and> last f = LF"
    unfolding content_inv_def by blast
  let ?X = "last fls @ buf @ [c]"
  let ?F = "butlast fls @ [?X, []]"
  from rot k(3) have "(\<bar>num_per_split a\<bar> * (int (length fls) - 1) + int k + 1) mod num_per_split a = 0"
    by simp
  with split_boundary [OF n k(2)] have kN: "Suc k = ?N" by simp
  from scan_bytes_snoc [OF k(1) sb] kN
  have 1: "scan_bytes [start] ?X = Inr ([start], ?N)" by simp
  from scan_bytes_snoc [OF all sb] pos
  have 2: "scan_bytes [start] (consumed @ [c]) = Inr ([start], nat (rn + 1))"
    by (simp add: nat_add_distrib)
  have bl: "butlast ?F = butlast fls @ [?X]" by (simp add: butlast_append)
  have 3: "\<forall>f \<in> set (butlast ?F).
          scan_bytes [start] f = Inr ([start], ?N) \<and> f \<noteq> [] \<and> last f = LF"
    unfolding bl using rest(3) 1 c by auto
  have "concat fls = concat (butlast fls) @ last fls"
    using rest(1) by (metis append_butlast_last_id concat.simps(1,2) concat_append append_Nil2)
  with rest(2) have 4: "concat ?F @ [] = consumed @ [c]" by simp
  have len: "int (length ?F) - 1 = int (length fls)" using rest(1) by simp
  have "int ?N = \<bar>num_per_split a\<bar>" by simp
  with kN have "int k + 1 = \<bar>num_per_split a\<bar>" by linarith
  with k(3) have 5: "rn + 1 = \<bar>num_per_split a\<bar> * (int (length ?F) - 1) + int 0"
    unfolding len by (simp add: algebra_simps)
  have 6: "0 < ?N" using n by simp
  have 7: "scan_bytes [start] (last ?F @ []) = Inr ([start], 0)" by simp
  have 8: "reachable_stack [start]" by (simp add: reachable_stack_def)
  have 9: "0 \<le> rn + 1" using pos by simp
  show ?thesis
    unfolding content_inv_def using 2 3 4 5 6 7 8 9 by blast
qed

lemma content_flush:
  assumes inv: "content_inv a consumed fls buf st rn"
  shows "content_inv a consumed (butlast fls @ [last fls @ buf]) [] st rn"
proof -
  from inv have ne: "fls \<noteq> []" by (simp add: content_inv_def)
  then have "concat fls = concat (butlast fls) @ last fls"
    by (metis append_butlast_last_id concat.simps(1,2) concat_append append_Nil2)
  with inv show ?thesis
    unfolding content_inv_def using ne by (auto simp: butlast_append)
qed


lemma rotate_ok:
  assumes h: "handles_ok s" and pc: "paths_creatable os a"
  shows "\<exists>s'. rotate os a rs tell index s = Inr s' \<and> handles_ok s'
           \<and> split_files s' = butlast (split_files s) @ [last (split_files s) @ outbuf s, []]
           \<and> outbuf s' = [] \<and> state s' = state s \<and> record_num s' = record_num s"
proof -
  let ?line = "str_int (record_num s) @ [TAB] @ str_int (int tell - int rs + int index + 1) @ [LF]"
  define s1 where "s1 = (case indexfh s of None \<Rightarrow> s
                         | Some ifh \<Rightarrow> s\<lparr>disk := fh_write (disk s) ifh ?line\<rparr>)"
  from h obtain ofh where ofh: "outfh s = Some ofh" by (auto simp: handles_ok_def)
  have h1: "handles_ok s1" and f1: "split_files s1 = split_files s"
    using h write_index [OF h] by (auto simp: s1_def split: option.splits)
  have o1: "outfh s1 = Some ofh" "outbuf s1 = outbuf s" "state s1 = state s"
    "record_num s1 = record_num s" "output_filenum s1 = output_filenum s" "opened s1 = opened s"
    using ofh by (auto simp: s1_def split: option.splits)
  define s2 where "s2 = s1\<lparr>disk := fh_write (disk s1) ofh (outbuf s), outbuf := []\<rparr>"
  from flush_current [OF h1 o1(1), where d = "outbuf s" and b = "[]"] f1
  have h2: "handles_ok s2"
    and f2: "split_files s2 = butlast (split_files s) @ [last (split_files s) @ outbuf s]"
    by (simp_all add: s2_def)
  from pc have "\<forall>k. creatable os
      (candidate os (initial_output_path os (input_csv a) (output_dir a) (output_filenum s + 1) 6) k)"
    by (simp add: paths_creatable_def)
  from next_outfile_returns [OF this, of "disk s2"] obtain path fs3 where
    no: "next_outfile os (disk s2) (input_csv a) (output_dir a) (output_filenum s + 1)
         = Inr (path, fs3)"
    by blast
  from next_outfile_spec [OF no] have free: "\<not> file_exists (disk s2) path"
    and fs3: "fs3 = (path, []) # disk s2" by simp_all
  define s3 where "s3 = s2\<lparr>disk := (path, []) # disk s2, output_filenum := output_filenum s2 + 1,
                        outfh := Some path, opened := opened s2 @ [path]\<rparr>"
  from create_next [OF h2 free] f2
  have h3: "handles_ok s3"
    and f3: "split_files s3 = butlast (split_files s) @ [last (split_files s) @ outbuf s, []]"
    by (simp_all add: s3_def)
  have d2: "disk s2 = fh_write (disk s1) ofh (outbuf s)" by (simp add: s2_def)
  have d1: "disk s1 = (case indexfh s of None \<Rightarrow> disk s
                       | Some ifh \<Rightarrow> fh_write (disk s) ifh ?line)"
    by (simp add: s1_def split: option.splits)
  have "rotate os a rs tell index s = Inr s3"
    using no ofh unfolding rotate_def Let_def d1 [symmetric] d2 [symmetric]
    by (simp add: s3_def s2_def s1_def fs3 split: option.splits)
  moreover have "outbuf s3 = []" "state s3 = state s" "record_num s3 = record_num s"
    using o1 by (simp_all add: s3_def s2_def)
  ultimately show ?thesis using h3 f3 by blast
qed

lemma process_byte_inv:
  assumes inv: "run_inv a consumed s" and n: "num_per_split a \<noteq> 0"
    and pc: "paths_creatable os a"
  shows "\<exists>s'. process_byte os a rs tell index c s = Inr s' \<and> run_inv a (consumed @ [c]) s'"
proof -
  from inv have h: "handles_ok s"
    and ci: "content_inv a consumed (split_files s) (outbuf s) (state s) (record_num s)"
    by (simp_all add: run_inv_def)
  from ci have "reachable_stack (state s)" by (simp add: content_inv_def)
  from scan_byte_reachable [OF this, of c] obtain st' b where
    sb: "scan_byte (state s) c = Inr (st', b)" and r: "reachable_stack st'"
    and e: "b \<longrightarrow> c = LF \<and> st' = [start]" by blast
  show ?thesis
  proof (cases "b \<and> (record_num s + 1) mod num_per_split a = 0")
    case False
    define s' where "s' = s\<lparr>outbuf := outbuf s @ [c], state := st',
                            record_num := record_num s + (if b then 1 else 0)\<rparr>"
    have "process_byte os a rs tell index c s = Inr s'"
      using sb n False by (auto simp: process_byte_def Let_def s'_def)
    moreover have "handles_ok s'" using h by (rule handles_ok_frame) (simp_all add: s'_def)
    moreover have "split_files s' = split_files s" by (rule split_files_frame) (simp_all add: s'_def)
    moreover have norot: "b \<longrightarrow> (record_num s + 1) mod num_per_split a \<noteq> 0"
      using False by simp
    have "content_inv a (consumed @ [c]) (split_files s) (outbuf s @ [c]) st'
            (record_num s + (if b then 1 else 0))"
      by (rule content_step [OF ci sb r n norot])
    ultimately show ?thesis by (simp add: run_inv_def s'_def)
  next
    case True
    with e have b: "b" and c: "c = LF" and st': "st' = [start]"
      and rot: "(record_num s + 1) mod num_per_split a = 0" by simp_all
    define s3 where "s3 = s\<lparr>outbuf := outbuf s @ [c], state := st', record_num := record_num s + 1\<rparr>"
    have pb: "process_byte os a rs tell index c s = rotate os a rs tell index s3"
      using sb n b rot by (simp add: process_byte_def Let_def s3_def)
    have h3: "handles_ok s3" using h by (rule handles_ok_frame) (simp_all add: s3_def)
    have f3: "split_files s3 = split_files s" by (rule split_files_frame) (simp_all add: s3_def)
    from rotate_ok [OF h3 pc, of rs tell index] obtain s' where
      ro: "rotate os a rs tell index s3 = Inr s'" and h': "handles_ok s'"
      and f': "split_files s' = butlast (split_files s3) @ [last (split_files s3) @ outbuf s3, []]"
      and o': "outbuf s' = []" "state s' = state s3" "record_num s' = record_num s3" by blast
    from sb b st' have sb': "scan_byte (state s) c = Inr ([start], True)" by simp
    from content_rotate [OF ci sb' c n rot] f' f3 o' st'
    have "content_inv a (consumed @ [c]) (split_files s') (outbuf s') (state s') (record_num s')"
      by (simp add: s3_def)
    with pb ro h' show ?thesis by (simp add: run_inv_def)
  qed
qed

lemma for_enumerate_inv:
  assumes "run_inv a consumed s" and "num_per_split a \<noteq> 0" and "paths_creatable os a"
  shows "\<exists>s'. for_enumerate os a rs tell index inbuf s = Inr s' \<and> run_inv a (consumed @ inbuf) s'"
  using assms
proof (induction inbuf arbitrary: s consumed index)
  case Nil
  then show ?case by simp
next
  case (Cons c inbuf)
  from process_byte_inv [OF Cons.prems, of rs tell index c] obtain s1 where
    1: "process_byte os a rs tell index c s = Inr s1" and i1: "run_inv a (consumed @ [c]) s1"
    by blast
  from Cons.IH [OF i1 Cons.prems(2,3), of "index + 1"] 1 show ?case by simp
qed

lemma chunk_end_inv:
  assumes inv: "run_inv a consumed s" and o: "outfh s = Some ofh"
  shows "run_inv a consumed (s\<lparr>disk := fh_write (disk s) ofh (outbuf s), outbuf := []\<rparr>)"
proof -
  from inv have h: "handles_ok s"
    and ci: "content_inv a consumed (split_files s) (outbuf s) (state s) (record_num s)"
    by (simp_all add: run_inv_def)
  from flush_current [OF h o, where d = "outbuf s" and b = "[]"] content_flush [OF ci]
  show ?thesis by (simp add: run_inv_def)
qed

lemma fh_read_rest:
  "fst (fh_read infh rs) @ drop (pos (snd (fh_read infh rs))) (data (snd (fh_read infh rs)))
   = drop (pos infh) (data infh)"
proof -
  define ys where "ys = drop (pos infh) (data infh)"
  have "drop (pos infh + length (take rs ys)) (data infh) = drop (length (take rs ys)) ys"
    by (simp add: ys_def ac_simps)
  also have "\<dots> = drop rs ys" by (cases "rs \<le> length ys") simp_all
  finally have "take rs ys @ drop (pos infh + length (take rs ys)) (data infh) = ys" by simp
  then show ?thesis by (simp add: fh_read_def Let_def ys_def)
qed

lemma while_inbuf_inv:
  assumes "run_inv a consumed s" and "num_per_split a \<noteq> 0" and "outbuf s = []" and "0 < rs"
    and "inbuf = [] \<longrightarrow> length (data infh) \<le> pos infh" and "paths_creatable os a"
  shows "\<exists>s'. while_inbuf os a rs infh inbuf s = Inr s'
            \<and> run_inv a (consumed @ inbuf @ drop (pos infh) (data infh)) s' \<and> outbuf s' = []"
  using assms
proof (induction os a rs infh inbuf s arbitrary: consumed rule: while_inbuf.induct)
  case (1 os a rs infh inbuf s)
  show ?case
  proof (cases "inbuf = []")
    case True
    with "1.prems" show ?thesis by (subst while_inbuf.simps) simp
  next
    case False
    from for_enumerate_inv [OF "1.prems"(1,2,6), of rs "pos infh" 0 inbuf] obtain s1 where
      fe: "for_enumerate os a rs (pos infh) 0 inbuf s = Inr s1"
      and i1: "run_inv a (consumed @ inbuf) s1" by blast
    from i1 obtain ofh where o: "outfh s1 = Some ofh" by (auto simp: run_inv_def handles_ok_def)
    let ?s2 = "s1\<lparr>disk := fh_write (disk s1) ofh (outbuf s1), outbuf := []\<rparr>"
    let ?inbuf = "fst (fh_read infh rs)" and ?infh = "snd (fh_read infh rs)"
    have i2: "run_inv a (consumed @ inbuf) ?s2" using i1 o by (rule chunk_end_inv)
    have e: "?inbuf = [] \<longrightarrow> length (data ?infh) \<le> pos ?infh"
      using \<open>0 < rs\<close> by (auto simp: fh_read_def Let_def)
    have rest: "?inbuf @ drop (pos ?infh) (data ?infh) = drop (pos infh) (data infh)"
      by (rule fh_read_rest)
    from "1.IH" [OF False fe o i2 "1.prems"(2) _ "1.prems"(4) e "1.prems"(6)] rest
    obtain s' where "while_inbuf os a rs ?infh ?inbuf ?s2 = Inr s'"
      "run_inv a (consumed @ inbuf @ drop (pos infh) (data infh)) s'" "outbuf s' = []"
      by auto
    with False fe o show ?thesis by (subst while_inbuf.simps) simp
  qed
qed

lemma open_outputs_inv:
  assumes ix: "index_free a fs" and n: "num_per_split a \<noteq> 0" and pc: "paths_creatable os a"
  shows "\<exists>s. open_outputs os a (init_state fs) = Inr s \<and> run_inv a [] s \<and> outbuf s = []"
proof -
  define s1 where "s1 = (if truthy (generate_index a)
      then (init_state fs)\<lparr>disk := (the (generate_index a), []) # fs,
                            indexfh := generate_index a\<rparr>
      else init_state fs)"
  have first: "(if truthy (generate_index a) then
              (case open_x os (disk (init_state fs)) (the (generate_index a)) of
                 Inl e \<Rightarrow> Inl (e, disk (init_state fs))
               | Inr fs1 \<Rightarrow> Inr ((init_state fs)\<lparr>disk := fs1, indexfh := generate_index a\<rparr>))
            else Inr (init_state fs)) = Inr s1"
    using ix pc by (simp add: s1_def index_free_def paths_creatable_def open_x_def init_state_def)
  from pc have "\<forall>k. creatable os
      (candidate os (initial_output_path os (input_csv a) (output_dir a) (output_filenum s1) 6) k)"
    by (simp add: paths_creatable_def)
  from next_outfile_returns [OF this, of "disk s1"] obtain path fs2 where
    no: "next_outfile os (disk s1) (input_csv a) (output_dir a) (output_filenum s1)
         = Inr (path, fs2)"
    by blast
  from next_outfile_spec [OF no] have free: "\<not> file_exists (disk s1) path"
    and fs2: "fs2 = (path, []) # disk s1" by simp_all
  define s where "s = s1\<lparr>disk := fs2, outfh := Some path, opened := [path]\<rparr>"
  have run: "open_outputs os a (init_state fs) = Inr s"
    unfolding open_outputs_def first using no by (simp add: s_def)
  have ixs: "\<forall>p. indexfh s = Some p \<longrightarrow> file_exists (disk s) p \<and> p \<noteq> path"
    using free by (auto simp: s_def s1_def fs2 init_state_def truthy_def)
  have h: "handles_ok s"
    using ixs by (auto simp: handles_ok_def s_def s1_def fs2 init_state_def)
  have f: "split_files s = [[]]" "outbuf s = []" "state s = [start]" "record_num s = 0"
    by (simp_all add: split_files_def s_def s1_def fs2 init_state_def)
  have "content_inv a [] [[]] [] [start] 0"
    using n by (simp add: content_inv_def reachable_stack_def)
  with h f run show ?thesis by (simp add: run_inv_def)
qed

lemma run_with_inv:
  assumes rs: "0 < rs" and n: "num_per_split a \<noteq> 0"
    and inp: "map_of fs (input_csv a) = Some bytes" and ne: "bytes \<noteq> []"
    and ix: "index_free a fs" and pc: "paths_creatable os a"
  shows "\<exists>s. run_with rs os a fs = Inr s \<and> run_inv a bytes s \<and> outbuf s = []"
proof -
  let ?infh = "\<lparr>data = bytes, pos = 0\<rparr>"
  let ?inbuf = "fst (fh_read ?infh rs)" and ?infh1 = "snd (fh_read ?infh rs)"
  have nonempty: "?inbuf \<noteq> []" using rs ne by (simp add: fh_read_def)
  from open_outputs_inv [OF ix n pc] obtain s0 where
    oo: "open_outputs os a (init_state fs) = Inr s0" and i0: "run_inv a [] s0"
    and b0: "outbuf s0 = []" by blast
  have e: "?inbuf = [] \<longrightarrow> length (data ?infh1) \<le> pos ?infh1" using nonempty by simp
  from while_inbuf_inv [OF i0 n b0 rs e pc] fh_read_rest [of ?infh rs]
  obtain s1 where w: "while_inbuf os a rs ?infh1 ?inbuf s0 = Inr s1"
    and i1: "run_inv a bytes s1" and b1: "outbuf s1 = []" by auto
  from i1 obtain ofh where "outfh s1 = Some ofh" by (auto simp: run_inv_def handles_ok_def)
  with b1 have "flush_leftovers s1 = s1" by (simp add: flush_leftovers_def)
  with inp nonempty oo w i1 b1 show ?thesis by (simp add: run_with_def Let_def)
qed

lemma run_with_empty:
  assumes "map_of fs (input_csv a) = Some []"
  shows "run_with rs os a fs = Inr (init_state fs)"
  using assms
  by (simp add: run_with_def fh_read_def while_inbuf.simps flush_leftovers_def init_state_def)

lemma posixpath_creatable: "paths_creatable posixpath a"
  by (simp add: paths_creatable_def posixpath_def)

text \<open>
  C1. When the input file exists, \<^verbatim>\<open>num_per_split\<close> is not zero, the index file, if one
  is asked for, does not exist yet, and the paths of the run can be created, the run ends
  without an exception; the split files it has created have different paths and exist,
  and their contents, concatenated in the order of their creation, are the bytes of the
  input file.
\<close>

theorem split_concat_is_input:
  "map_of fs (input_csv a) = Some bytes \<Longrightarrow> num_per_split a \<noteq> 0 \<Longrightarrow> index_free a fs
   \<Longrightarrow> paths_creatable os a
   \<Longrightarrow> \<exists>s. run_as_script os a fs = Inr s \<and> concat (split_files s) = bytes
          \<and> distinct (opened s) \<and> list_all (file_exists (disk s)) (opened s)"
proof (cases "bytes = []")
  case True
  assume "map_of fs (input_csv a) = Some bytes"
  with True have "run_as_script os a fs = Inr (init_state fs)"
    by (simp add: run_as_script_def run_with_empty)
  with True show ?thesis by (simp add: split_files_def init_state_def)
next
  case False
  assume "map_of fs (input_csv a) = Some bytes" "num_per_split a \<noteq> 0" "index_free a fs"
    "paths_creatable os a"
  from run_with_inv [OF read_size_pos this(2,1) False this(3,4)]
  show ?thesis
    by (auto simp: run_as_script_def run_inv_def content_inv_def handles_ok_def list_all_iff)
qed

theorem split_concat_is_input_witness:
  "\<exists>s. run_as_script posixpath
          \<lparr>input_csv = ''in.csv'', num_per_split = 2, output_dir = None, generate_index = None\<rparr>
          [(''in.csv'', [CHR ''a'', LF, CHR ''b'', LF, CHR ''c'', LF])] = Inr s
      \<and> concat (split_files s) = [CHR ''a'', LF, CHR ''b'', LF, CHR ''c'', LF]
      \<and> split_files s = [[CHR ''a'', LF, CHR ''b'', LF], [CHR ''c'', LF]]
      \<and> disk s = [(''in_000002.csv'', [CHR ''c'', LF]),
                  (''in_000001.csv'', [CHR ''a'', LF, CHR ''b'', LF]),
                  (''in.csv'', [CHR ''a'', LF, CHR ''b'', LF, CHR ''c'', LF])]"
proof -
  let ?a = "\<lparr>input_csv = ''in.csv'', num_per_split = 2, output_dir = None,
              generate_index = None\<rparr>"
  let ?bytes = "[CHR ''a'', LF, CHR ''b'', LF, CHR ''c'', LF]"
  let ?fs = "[(''in.csv'', ?bytes)]"
  have 1: "map_of ?fs (input_csv ?a) = Some ?bytes" by simp
  have 2: "num_per_split ?a \<noteq> 0" by simp
  have 3: "index_free ?a ?fs" by (simp add: index_free_def truthy_def)
  from split_concat_is_input [OF 1 2 3 posixpath_creatable] obtain s where
    r: "run_as_script posixpath ?a ?fs = Inr s" and c: "concat (split_files s) = ?bytes"
    by blast
  have "run_as_script posixpath ?a ?fs
        = Inr \<lparr>disk = [(''in_000002.csv'', [CHR ''c'', LF]),
                       (''in_000001.csv'', [CHR ''a'', LF, CHR ''b'', LF]),
                       (''in.csv'', ?bytes)],
               state = [start], record_num = 3, output_filenum = 2,
               outfh = Some ''in_000002.csv'', indexfh = None, outbuf = [],
               opened = [''in_000001.csv'', ''in_000002.csv'']\<rparr>"
    by (simp add: scan_defs path_defs run_defs)
  with r have "split_files s = [[CHR ''a'', LF, CHR ''b'', LF], [CHR ''c'', LF]]"
    and "disk s = [(''in_000002.csv'', [CHR ''c'', LF]),
                  (''in_000001.csv'', [CHR ''a'', LF, CHR ''b'', LF]),
                  (''in.csv'', ?bytes)]"
    by (auto simp: split_files_def)
  with r c show ?thesis by blast
qed

lemma scan_bytes_reachable_eq:
  "reachable_stack st \<Longrightarrow> scan_bytes st cs = Inr (st', k) \<Longrightarrow> reachable_stack st'"
  using scan_bytes_reachable [of st cs] by auto

lemma reachable_start: "reachable_stack [start]"
  by (simp add: reachable_stack_def)

lemma no_records_no_final_LF:
  assumes sc: "scan_bytes [start] f = Inr ([start], 0)" and ne: "f \<noteq> []" and l: "last f = LF"
  shows False
proof -
  from ne l obtain g where f: "f = g @ [LF]" by (metis append_butlast_last_id)
  from scan_bytes_reachable [OF reachable_start, of g] obtain st0 k0 where
    g: "scan_bytes [start] g = Inr (st0, k0)" and r0: "reachable_stack st0" by blast
  from scan_byte_reachable [OF r0, of LF] obtain st2 b where
    s: "scan_byte st0 LF = Inr (st2, b)" by blast
  from scan_bytes_snoc [OF g s] sc f have st2: "st2 = [start]" and b: "\<not> b"
    by (auto split: if_splits)
  from r0 s st2 b dquote_not_LF show False
    by (auto simp: reachable_stack_def scan_byte_start scan_byte_inquote scan_byte_endquote
        split: if_splits)
qed

lemma concat_butlast_last:
  "fls \<noteq> [] \<Longrightarrow> concat fls = concat (butlast fls) @ last fls"
  by (metis append_butlast_last_id concat.simps(1,2) concat_append append_Nil2)

lemma last_concat:
  "fls \<noteq> [] \<Longrightarrow> last fls \<noteq> [] \<Longrightarrow> last (concat fls) = last (last fls)"
  by (simp add: concat_butlast_last)

text \<open>
  C10. When the input is not empty, its last byte is a line feed that ends a record (the
  scanner is at "start" after it), the number of records is a multiple of a positive
  \<^verbatim>\<open>num_per_split\<close>, the index path is free and the paths of the run can be created, the
  run ends with a last split file that exists in the file system and is empty, created by
  the rotation at the last byte; the reported file count counts it: it is the number of
  files created, the number of full files plus one.
\<close>

theorem trailing_empty_file:
  "map_of fs (input_csv a) = Some bytes \<Longrightarrow> bytes \<noteq> [] \<Longrightarrow> last bytes = LF
   \<Longrightarrow> scan_bytes [start] bytes = Inr ([start], k) \<Longrightarrow> 0 < num_per_split a
   \<Longrightarrow> k mod nat (num_per_split a) = 0 \<Longrightarrow> index_free a fs \<Longrightarrow> paths_creatable os a
   \<Longrightarrow> \<exists>s. run_as_script os a fs = Inr s \<and> split_files s \<noteq> [] \<and> last (split_files s) = []
          \<and> opened s \<noteq> [] \<and> map_of (disk s) (last (opened s)) = Some []
          \<and> distinct (opened s) \<and> list_all (file_exists (disk s)) (opened s)
          \<and> output_filenum s = length (split_files s)
          \<and> length (split_files s) = k div nat (num_per_split a) + 1
          \<and> record_num s = int k \<and> 0 < k"
proof -
  assume inp: "map_of fs (input_csv a) = Some bytes" and ne: "bytes \<noteq> []"
    and l: "last bytes = LF" and sc: "scan_bytes [start] bytes = Inr ([start], k)"
    and n: "0 < num_per_split a" and m: "k mod nat (num_per_split a) = 0"
    and ix: "index_free a fs" and pc: "paths_creatable os a"
  let ?N = "nat (num_per_split a)"
  from n have n0: "num_per_split a \<noteq> 0" by simp
  from run_with_inv [OF read_size_pos n0 inp ne ix pc] obtain s where
    run: "run_as_script os a fs = Inr s" and h: "handles_ok s"
    and ci: "content_inv a bytes (split_files s) [] (state s) (record_num s)"
    by (auto simp: run_as_script_def run_inv_def)
  from ci have fne: "split_files s \<noteq> []" and cc: "concat (split_files s) = bytes"
    and whole: "scan_bytes [start] bytes = Inr (state s, nat (record_num s))"
    and pos: "0 \<le> record_num s"
    and ex: "\<exists>j. scan_bytes [start] (last (split_files s) @ []) = Inr (state s, j)
           \<and> j < nat \<bar>num_per_split a\<bar>
           \<and> record_num s = \<bar>num_per_split a\<bar> * (int (length (split_files s)) - 1) + int j"
    unfolding content_inv_def by simp_all
  from whole sc have st: "state s = [start]" and rn: "nat (record_num s) = k" by simp_all
  from ex st n obtain k' where
    k': "scan_bytes [start] (last (split_files s)) = Inr ([start], k')" "k' < ?N"
      "record_num s = num_per_split a * (int (length (split_files s)) - 1) + int k'"
    by auto
  from fne have len: "0 < length (split_files s)" by simp
  from len have "int (length (split_files s) - 1) = int (length (split_files s)) - 1"
    by linarith
  with n have "int (?N * (length (split_files s) - 1) + k')
        = num_per_split a * (int (length (split_files s)) - 1) + int k'"
    by simp
  with k'(3) have R: "record_num s = int (?N * (length (split_files s) - 1) + k')"
    by (simp only:)
  have knat: "k = ?N * (length (split_files s) - 1) + k'"
    unfolding rn [symmetric] R by (simp only: nat_int)
  with m have "k' mod ?N = 0" by simp
  with k'(2) have z: "k' = 0" by simp
  have lastempty: "last (split_files s) = []"
  proof (rule ccontr)
    assume nonempty: "last (split_files s) \<noteq> []"
    from last_concat [OF fne this] cc l have "last (last (split_files s)) = LF" by simp
    with no_records_no_final_LF [of "last (split_files s)"] k'(1) z nonempty show False by simp
  qed
  from knat z n have d: "k div ?N = length (split_files s) - 1" by simp
  with len have cnt: "length (split_files s) = k div ?N + 1" by simp
  have kpos: "0 < k"
  proof (rule ccontr)
    assume "\<not> 0 < k"
    with sc have "scan_bytes [start] bytes = Inr ([start], 0)" by simp
    from no_records_no_final_LF [OF this ne l] show False .
  qed
  from h have cntf: "output_filenum s = length (split_files s)"
    by (simp add: handles_ok_def split_files_def)
  from h have one: "opened s \<noteq> []" and di: "distinct (opened s)"
    and ex: "list_all (file_exists (disk s)) (opened s)"
    and exl: "file_exists (disk s) (last (opened s))"
    by (auto simp: handles_ok_def list_all_iff)
  from one have "last (split_files s) = contents (disk s) (last (opened s))"
    by (simp add: split_files_def last_map)
  with lastempty exl have created: "map_of (disk s) (last (opened s)) = Some []"
    by (auto simp: contents_def file_exists_def)
  from rn pos have "record_num s = int k" by simp
  with run fne lastempty one created di ex cntf cnt kpos show ?thesis by blast
qed

theorem trailing_empty_file_witness:
  "\<exists>s. run_as_script posixpath
          \<lparr>input_csv = ''in.csv'', num_per_split = 2, output_dir = None, generate_index = None\<rparr>
          [(''in.csv'', [CHR ''a'', LF, CHR ''b'', LF])] = Inr s
      \<and> split_files s = [[CHR ''a'', LF, CHR ''b'', LF], []]
      \<and> opened s = [''in_000001.csv'', ''in_000002.csv'']
      \<and> disk s = [(''in_000002.csv'', []), (''in_000001.csv'', [CHR ''a'', LF, CHR ''b'', LF]),
                  (''in.csv'', [CHR ''a'', LF, CHR ''b'', LF])]
      \<and> map_of (disk s) (last (opened s)) = Some []
      \<and> output_filenum s = 2 \<and> record_num s = 2"
proof -
  let ?a = "\<lparr>input_csv = ''in.csv'', num_per_split = 2, output_dir = None,
              generate_index = None\<rparr>"
  let ?bytes = "[CHR ''a'', LF, CHR ''b'', LF]"
  let ?fs = "[(''in.csv'', ?bytes)]"
  have 1: "map_of ?fs (input_csv ?a) = Some ?bytes" by simp
  have 2: "?bytes \<noteq> []" by simp
  have 3: "last ?bytes = LF" by simp
  have 4: "scan_bytes [start] ?bytes = Inr ([start], 2)" by (simp add: scan_defs)
  have 5: "0 < num_per_split ?a" by simp
  have 6: "2 mod nat (num_per_split ?a) = 0" by simp
  have 7: "index_free ?a ?fs" by (simp add: index_free_def truthy_def)
  from trailing_empty_file [OF 1 2 3 4 5 6 7 posixpath_creatable] obtain s where
    r: "run_as_script posixpath ?a ?fs = Inr s"
    and m: "map_of (disk s) (last (opened s)) = Some []"
    and c: "output_filenum s = length (split_files s)"
    by blast
  have "run_as_script posixpath ?a ?fs
        = Inr \<lparr>disk = [(''in_000002.csv'', []), (''in_000001.csv'', ?bytes), (''in.csv'', ?bytes)],
               state = [start], record_num = 2, output_filenum = 2,
               outfh = Some ''in_000002.csv'', indexfh = None, outbuf = [],
               opened = [''in_000001.csv'', ''in_000002.csv'']\<rparr>"
    by (simp add: scan_defs path_defs run_defs)
  with r have "split_files s = [?bytes, []]"
    "opened s = [''in_000001.csv'', ''in_000002.csv'']"
    "disk s = [(''in_000002.csv'', []), (''in_000001.csv'', ?bytes), (''in.csv'', ?bytes)]"
    "output_filenum s = 2" "record_num s = 2"
    by (auto simp: split_files_def)
  with r m show ?thesis by blast
qed





lemma scan_byte_resolved:
  assumes "reachable_stack st"
  shows "\<exists>st1 st'. resolve_endquote st c = Inr st1 \<and> st1 \<noteq> []
           \<and> scan_byte st c = Inr (st', c = LF \<and> last st1 = start)"
proof -
  from assms consider "st = [start]" | "st = [start, inquote]" | "st = [start, inquote, endquote]"
    unfolding reachable_stack_def by blast
  then show ?thesis
  proof cases
    case 1
    then show ?thesis using dquote_not_LF
      by (auto simp: scan_byte_start resolve_endquote_def top_def pop_def)
  next
    case 2
    then show ?thesis
      by (auto simp: scan_byte_inquote resolve_endquote_def top_def pop_def)
  next
    case 3
    then show ?thesis using dquote_not_LF
      by (auto simp: scan_byte_endquote resolve_endquote_def top_def pop_def)
  qed
qed

lemma rotate_record_num:
  assumes o: "outfh s = Some ofh" and pc: "paths_creatable os a"
  shows "\<exists>s'. rotate os a rs tell index s = Inr s' \<and> record_num s' = record_num s"
proof -
  from pc have c: "\<forall>k. creatable os
      (candidate os (initial_output_path os (input_csv a) (output_dir a) (output_filenum s + 1) 6) k)"
    by (simp add: paths_creatable_def)
  define fs2 where "fs2 = fh_write
      (case indexfh s of None \<Rightarrow> disk s
       | Some ifh \<Rightarrow> fh_write (disk s) ifh
           (str_int (record_num s) @ [TAB]
            @ str_int (int tell - int rs + int index + 1) @ [LF]))
      ofh (outbuf s)"
  from next_outfile_returns [OF c, of fs2] obtain path fs3 where
    "next_outfile os fs2 (input_csv a) (output_dir a) (output_filenum s + 1) = Inr (path, fs3)"
    by blast
  with o show ?thesis
    unfolding rotate_def Let_def by (simp add: fs2_def)
qed

lemma process_byte_counts:
  assumes r: "reachable_stack (state s)" and o: "outfh s = Some ofh"
    and n: "num_per_split a \<noteq> 0" and pc: "paths_creatable os a"
  shows "\<exists>s' st1. process_byte os a rs tell index c s = Inr s'
           \<and> resolve_endquote (state s) c = Inr st1 \<and> st1 \<noteq> []
           \<and> record_num s' = record_num s + (if c = LF \<and> last st1 = start then 1 else 0)"
proof -
  from scan_byte_resolved [OF r, of c] obtain st1 st' where
    re: "resolve_endquote (state s) c = Inr st1" "st1 \<noteq> []"
    and sb: "scan_byte (state s) c = Inr (st', c = LF \<and> last st1 = start)" by blast
  show ?thesis
  proof (cases "c = LF \<and> last st1 = start")
    case False
    with sb have "process_byte os a rs tell index c s
        = Inr (s\<lparr>outbuf := outbuf s @ [c], state := st'\<rparr>)"
      by (simp add: process_byte_def Let_def)
    with re False show ?thesis by simp
  next
    case True
    let ?s3 = "s\<lparr>outbuf := outbuf s @ [c], state := st', record_num := record_num s + 1\<rparr>"
    from o have "outfh ?s3 = Some ofh" by simp
    from rotate_record_num [OF this pc, of rs tell index] obtain s' where
      ro: "rotate os a rs tell index ?s3 = Inr s'" "record_num s' = record_num s + 1" by auto
    have "\<exists>s'. process_byte os a rs tell index c s = Inr s' \<and> record_num s' = record_num s + 1"
      using sb True n ro by (simp add: process_byte_def Let_def)
    with re True show ?thesis by auto
  qed
qed

lemma scan_concat_start:
  "\<forall>f \<in> set fls. \<exists>k. scan_bytes [start] f = Inr ([start], k)
   \<Longrightarrow> \<exists>k. scan_bytes [start] (concat fls) = Inr ([start], k)"
proof (induction fls)
  case Nil
  then show ?case by simp
next
  case (Cons f fls)
  then obtain j k where "scan_bytes [start] f = Inr ([start], j)"
    "scan_bytes [start] (concat fls) = Inr ([start], k)" by auto
  from scan_bytes_append [OF this] show ?case by auto
qed

text \<open>
  C4. Let the input file exist, \<^verbatim>\<open>num_per_split\<close> be other than zero, the index path be
  free and the paths of the run be creatable. In the step for one byte, at any stack the
  scanner can hold after some input, the record counter goes up by one exactly when the
  byte is a line feed and the top of the stack left by the first \<^verbatim>\<open>if\<close> chain (the
  resolved state) is "start"; otherwise it keeps its value. The run ends, its split
  files exist and together are the input, the scanner is at "start", outside any quoted
  field, at every boundary between two split files of the input, and every split file
  but the last, scanned alone, ends at "start" as well: its quotes are balanced.
\<close>

theorem record_ends_outside_quotes:
  "map_of fs (input_csv a) = Some bytes \<Longrightarrow> num_per_split a \<noteq> 0 \<Longrightarrow> index_free a fs \<Longrightarrow>
   paths_creatable os a \<Longrightarrow>
   (\<forall>pre k c s rs tell index.
      scan_bytes [start] pre = Inr (state s, k) \<and> outfh s \<noteq> None \<longrightarrow>
      (\<exists>s' st1. process_byte os a rs tell index c s = Inr s' \<and>
         resolve_endquote (state s) c = Inr st1 \<and> st1 \<noteq> [] \<and>
         (record_num s' = record_num s + 1 \<longleftrightarrow> c = LF \<and> last st1 = start) \<and>
         (record_num s' = record_num s \<longleftrightarrow> \<not> (c = LF \<and> last st1 = start)))) \<and>
   (\<exists>s. run_as_script os a fs = Inr s \<and> concat (split_files s) = bytes \<and>
      list_all (file_exists (disk s)) (opened s) \<and>
      (\<forall>j < length (split_files s).
          \<exists>k. scan_bytes [start] (concat (take j (split_files s))) = Inr ([start], k)) \<and>
      (\<forall>f \<in> set (butlast (split_files s)). \<exists>k. scan_bytes [start] f = Inr ([start], k)))"
proof -
  assume inp: "map_of fs (input_csv a) = Some bytes" and n: "num_per_split a \<noteq> 0"
    and ix: "index_free a fs" and pc: "paths_creatable os a"
  have step: "\<exists>s' st1. process_byte os a rs tell index c s = Inr s' \<and>
         resolve_endquote (state s) c = Inr st1 \<and> st1 \<noteq> [] \<and>
         (record_num s' = record_num s + 1 \<longleftrightarrow> c = LF \<and> last st1 = start) \<and>
         (record_num s' = record_num s \<longleftrightarrow> \<not> (c = LF \<and> last st1 = start))"
    if a: "scan_bytes [start] pre = Inr (state s, k)" "outfh s \<noteq> None"
    for pre k c s rs tell index
  proof -
    from scan_bytes_reachable_eq [OF reachable_start a(1)] have r: "reachable_stack (state s)" .
    from a(2) obtain ofh where o: "outfh s = Some ofh" by auto
    from process_byte_counts [OF r o n pc, of rs tell index c] obtain s' st1 where
      p: "process_byte os a rs tell index c s = Inr s'"
        "resolve_endquote (state s) c = Inr st1" "st1 \<noteq> []"
        "record_num s' = record_num s + (if c = LF \<and> last st1 = start then 1 else 0)"
      by blast
    show ?thesis
      by (rule exI [of _ s'], rule exI [of _ st1]) (simp add: p)
  qed
  have run: "\<exists>s. run_as_script os a fs = Inr s \<and> concat (split_files s) = bytes \<and>
      list_all (file_exists (disk s)) (opened s) \<and>
      (\<forall>j < length (split_files s).
          \<exists>k. scan_bytes [start] (concat (take j (split_files s))) = Inr ([start], k)) \<and>
      (\<forall>f \<in> set (butlast (split_files s)). \<exists>k. scan_bytes [start] f = Inr ([start], k))"
  proof (cases "bytes = []")
    case True
    with inp have "run_as_script os a fs = Inr (init_state fs)"
      by (simp add: run_as_script_def run_with_empty)
    with True show ?thesis by (simp add: split_files_def init_state_def)
  next
    case False
    from run_with_inv [OF read_size_pos n inp False ix pc] obtain s where
      r: "run_as_script os a fs = Inr s" and h: "handles_ok s"
      and ci: "content_inv a bytes (split_files s) [] (state s) (record_num s)"
      by (auto simp: run_as_script_def run_inv_def)
    from ci have cc: "concat (split_files s) = bytes"
      and bl: "\<forall>f \<in> set (butlast (split_files s)). \<exists>k. scan_bytes [start] f = Inr ([start], k)"
      unfolding content_inv_def by auto
    have "\<exists>k. scan_bytes [start] (concat (take j (split_files s))) = Inr ([start], k)"
      if j: "j < length (split_files s)" for j
    proof (rule scan_concat_start)
      from j have "take j (split_files s) = take j (butlast (split_files s))"
        by (simp add: take_butlast)
      then have "set (take j (split_files s)) \<subseteq> set (butlast (split_files s))"
        by (simp add: set_take_subset)
      with bl show "\<forall>f \<in> set (take j (split_files s)). \<exists>k. scan_bytes [start] f = Inr ([start], k)"
        by blast
    qed
    moreover from h have "list_all (file_exists (disk s)) (opened s)"
      by (auto simp: handles_ok_def list_all_iff)
    ultimately show ?thesis using r cc bl by blast
  qed
  show ?thesis
  proof (rule conjI)
    show "\<exists>s. run_as_script os a fs = Inr s \<and> concat (split_files s) = bytes \<and>
      list_all (file_exists (disk s)) (opened s) \<and>
      (\<forall>j < length (split_files s).
          \<exists>k. scan_bytes [start] (concat (take j (split_files s))) = Inr ([start], k)) \<and>
      (\<forall>f \<in> set (butlast (split_files s)). \<exists>k. scan_bytes [start] f = Inr ([start], k))"
      by (rule run)
  qed (intro allI impI, elim conjE, rule step)
qed

theorem record_ends_outside_quotes_witness:
  "(\<exists>s. run_as_script posixpath
          \<lparr>input_csv = ''in.csv'', num_per_split = 1, output_dir = None, generate_index = None\<rparr>
          [(''in.csv'', [dquote, CHR ''x'', LF, CHR ''y'', dquote, LF, CHR ''z'', LF])] = Inr s
      \<and> split_files s = [[dquote, CHR ''x'', LF, CHR ''y'', dquote, LF], [CHR ''z'', LF], []]
      \<and> (\<exists>k. scan_bytes [start] [dquote, CHR ''x'', LF, CHR ''y'', dquote, LF] = Inr ([start], k)))
   \<and> scan_bytes [start] [dquote, CHR ''x''] = Inr ([start, inquote], 0)
   \<and> resolve_endquote [start, inquote] LF = Inr [start, inquote]
   \<and> (\<exists>s'. process_byte posixpath
          \<lparr>input_csv = ''in.csv'', num_per_split = 1, output_dir = None, generate_index = None\<rparr>
          4 3 2 LF
          ((init_state [(''o'', [])])\<lparr>state := [start, inquote], outfh := Some ''o''\<rparr>) = Inr s'
        \<and> record_num s' = 0)"
proof -
  let ?a = "\<lparr>input_csv = ''in.csv'', num_per_split = 1, output_dir = None,
              generate_index = None\<rparr>"
  let ?bytes = "[dquote, CHR ''x'', LF, CHR ''y'', dquote, LF, CHR ''z'', LF]"
  let ?fs = "[(''in.csv'', ?bytes)]"
  let ?s0 = "(init_state [(''o'', [])])\<lparr>state := [start, inquote], outfh := Some ''o''\<rparr>"
  have 1: "map_of ?fs (input_csv ?a) = Some ?bytes" by simp
  have 2: "num_per_split ?a \<noteq> 0" by simp
  have 3: "index_free ?a ?fs" by (simp add: index_free_def truthy_def)
  note t = record_ends_outside_quotes [OF 1 2 3 posixpath_creatable]
  have pre: "scan_bytes [start] [dquote, CHR ''x''] = Inr ([start, inquote], 0)"
    by (simp add: scan_defs)
  have res: "resolve_endquote [start, inquote] LF = Inr [start, inquote]"
    by (simp add: scan_defs)
  have "scan_bytes [start] [dquote, CHR ''x''] = Inr (state ?s0, 0) \<and> outfh ?s0 \<noteq> None"
    using pre by simp
  with t [THEN conjunct1, rule_format, where pre = "[dquote, CHR ''x'']" and k = 0 and s = ?s0
      and rs = 4 and tell = 3 and index = 2 and c = LF]
  obtain s' st1 where p: "process_byte posixpath ?a 4 3 2 LF ?s0 = Inr s'"
    "resolve_endquote (state ?s0) LF = Inr st1"
    "record_num s' = record_num ?s0 \<longleftrightarrow> \<not> (LF = LF \<and> last st1 = start)"
    by blast
  from p(2) res have "st1 = [start, inquote]" by simp
  with p(3) have "record_num s' = 0" by (simp add: init_state_def)
  with p(1) have step: "\<exists>s'. process_byte posixpath ?a 4 3 2 LF ?s0 = Inr s' \<and> record_num s' = 0"
    by blast
  from t [THEN conjunct2] obtain s where
    r: "run_as_script posixpath ?a ?fs = Inr s"
    and f: "\<forall>f \<in> set (butlast (split_files s)). \<exists>k. scan_bytes [start] f = Inr ([start], k)"
    by blast
  have "run_as_script posixpath ?a ?fs
        = Inr \<lparr>disk = [(''in_000003.csv'', []), (''in_000002.csv'', [CHR ''z'', LF]),
                       (''in_000001.csv'', [dquote, CHR ''x'', LF, CHR ''y'', dquote, LF]),
                       (''in.csv'', ?bytes)],
               state = [start], record_num = 2, output_filenum = 3,
               outfh = Some ''in_000003.csv'', indexfh = None, outbuf = [],
               opened = [''in_000001.csv'', ''in_000002.csv'', ''in_000003.csv'']\<rparr>"
    by (simp add: scan_defs path_defs run_defs)
  with r have sf: "split_files s
      = [[dquote, CHR ''x'', LF, CHR ''y'', dquote, LF], [CHR ''z'', LF], []]"
    by (auto simp: split_files_def scan_defs)
  from f have "\<exists>k. scan_bytes [start] [dquote, CHR ''x'', LF, CHR ''y'', dquote, LF] = Inr ([start], k)"
    unfolding sf by simp
  with r sf pre res step show ?thesis by blast
qed

text \<open>
  The count that a run reports is the number of bytes at which the scanner, run over the
  whole input, takes the end-of-record branch: the increment of line 146 for a last record
  without a line feed never happens.
\<close>

theorem reported_records_are_terminators:
  "map_of fs (input_csv a) = Some bytes \<Longrightarrow> num_per_split a \<noteq> 0 \<Longrightarrow> index_free a fs
   \<Longrightarrow> paths_creatable os a
   \<Longrightarrow> \<exists>s st k. run_as_script os a fs = Inr s \<and> scan_bytes [start] bytes = Inr (st, k)
          \<and> record_num s = int k"
proof (cases "bytes = []")
  case True
  assume "map_of fs (input_csv a) = Some bytes"
  with True have "run_as_script os a fs = Inr (init_state fs)"
    by (simp add: run_as_script_def run_with_empty)
  with True show ?thesis by (simp add: init_state_def)
next
  case False
  assume "map_of fs (input_csv a) = Some bytes" "num_per_split a \<noteq> 0" "index_free a fs"
    "paths_creatable os a"
  from run_with_inv [OF read_size_pos this(2,1) False this(3,4)] obtain s where
    r: "run_as_script os a fs = Inr s"
    and ci: "content_inv a bytes (split_files s) [] (state s) (record_num s)"
    by (auto simp: run_as_script_def run_inv_def)
  from ci have "scan_bytes [start] bytes = Inr (state s, nat (record_num s))"
    and "0 \<le> record_num s" by (simp_all add: content_inv_def)
  with r show ?thesis by (intro exI [of _ s] exI [of _ "state s"] exI [of _ "nat (record_num s)"]) simp
qed

theorem reported_records_are_terminators_witness:
  "\<exists>s st k. run_as_script posixpath
          \<lparr>input_csv = ''in.csv'', num_per_split = 2, output_dir = None, generate_index = None\<rparr>
          [(''in.csv'', [CHR ''a'', LF, CHR ''b''])] = Inr s
      \<and> scan_bytes [start] [CHR ''a'', LF, CHR ''b''] = Inr (st, k) \<and> record_num s = int k
      \<and> k = 1"
proof -
  let ?a = "\<lparr>input_csv = ''in.csv'', num_per_split = 2, output_dir = None,
              generate_index = None\<rparr>"
  let ?fs = "[(''in.csv'', [CHR ''a'', LF, CHR ''b''])]"
  have 1: "map_of ?fs (input_csv ?a) = Some [CHR ''a'', LF, CHR ''b'']" by simp
  have 2: "num_per_split ?a \<noteq> 0" by simp
  have 3: "index_free ?a ?fs" by (simp add: index_free_def truthy_def)
  from reported_records_are_terminators [OF 1 2 3 posixpath_creatable]
  show ?thesis by (simp add: scan_defs)
qed

text \<open>
  A run whose output directory does not exist: the index file is created (line 86), the
  first \<^verbatim>\<open>open\<close> of \<^verbatim>\<open>next_outfile\<close> raises FileNotFoundError (line 64), which line 65
  does not catch, and the run ends with this exception and no split file.
\<close>

theorem missing_directory_aborts:
  "run_as_script (posixpath\<lparr>creatable := (\<lambda>path. take 6 path \<noteq> ''nodir/'')\<rparr>)
     \<lparr>input_csv = ''in.csv'', num_per_split = 2, output_dir = Some ''nodir'',
        generate_index = Some ''in.idx''\<rparr>
     [(''in.csv'', [CHR ''a'', LF])]
   = Inl (FileNotFoundError, [(''in.idx'', []), (''in.csv'', [CHR ''a'', LF])])"
  by (simp add: scan_defs path_defs run_defs)

end
